theory Spec2Isabelle
  imports Complex_Main "HOL-Library.Signed_Division" "HOL-Library.Word"
begin

section \<open>Shared declarations of fast_matrix_market.hpp\<close>

text \<open>
  The formatters and the read engine include \<^verbatim>\<open>fast_matrix_market.hpp\<close>, which declares the
  separators, the number printers, the options and the header. The printers
  \<^verbatim>\<open>int_to_string\<close> and \<^verbatim>\<open>value_to_string\<close> are parameters (\<open>its\<close>, \<open>vts\<close>) of every
  definition that calls them, so that each result holds for any printer. The index
  printer is given the integer that its argument, a value of a signed machine type,
  stands for.
\<close>

text \<open>
  Modelled from the spec: \<^verbatim>\<open>int_to_string\<close> as the integer emission of section 4.1 (an
  optional sign and decimal digits), used where a result is shown on concrete input.
\<close>

function nat_to_string :: "nat \<Rightarrow> string" where
  "nat_to_string n =
     (if n < 10 then [''0123456789'' ! n]
      else nat_to_string (n div 10) @ [''0123456789'' ! (n mod 10)])"
  by pat_completeness auto
termination
  by (relation "measure (\<lambda>n. n)") auto

declare nat_to_string.simps [simp del]

definition int_to_string :: "int \<Rightarrow> string" where
  "int_to_string i =
     (if i < 0 then CHR ''-'' # nat_to_string (nat (- i)) else nat_to_string (nat i))"

text \<open>Modelled from the spec: the separator \<^verbatim>\<open>kSpace\<close> between the fields of a record
  (``records are whitespace-separated tokens'', written \<^verbatim>\<open>row+1 col+1 value\<close>).\<close>

definition kSpace :: string where
  "kSpace = [CHR 0x20]"

text \<open>Modelled from the spec: the line terminator \<^verbatim>\<open>kNewline\<close> (``write emits LF'').\<close>

definition kNewline :: string where
  "kNewline = [CHR 0x0A]"

text \<open>Modelled from the spec: the error kinds of section 7, of which the formatters raise
  \<^verbatim>\<open>invalid_argument\<close> only.\<close>

datatype fmm_error = invalid_argument

text \<open>Modelled from the spec: \<^verbatim>\<open>write_options\<close> (section 4.10); the formatters read
  \<^verbatim>\<open>chunk_size_values\<close>, an \<^verbatim>\<open>int64_t\<close>, only.\<close>

record write_options =
  chunk_size_values :: int

section \<open>formatters.hpp: the triplet formatter\<close>

text \<open>
  \<^verbatim>\<open>column_to_str\<close> has two instances, chosen by the template flag \<^verbatim>\<open>COLUMN_IS_VALUE\<close>:
  the value printer, and (the default, \<^verbatim>\<open>COLUMN_IS_VALUE = false\<close>) the index printer
  applied to \<open>c + 1\<close>. The sum is computed in the type of the index, a signed machine
  integer (\<^verbatim>\<open>int32_t\<close> and \<^verbatim>\<open>int64_t\<close> in the Python binding; a narrower signed type is
  promoted to the 32-bit \<^verbatim>\<open>int\<close> before the addition): a word of that width, whose addition
  wraps around at the largest index, read back as a signed number by \<open>sint\<close>. The row
  index of line 65, \<^verbatim>\<open>*row_iter + 1\<close>, is computed the same way.
\<close>

definition column_to_str_value :: "('c \<Rightarrow> string) \<Rightarrow> 'c \<Rightarrow> string" where
  "column_to_str_value vts c = vts c"

definition column_to_str_index :: "(int \<Rightarrow> string) \<Rightarrow> 'x::len word \<Rightarrow> string" where
  "column_to_str_index its c = its (sint (c + 1))"

text \<open>
  An iterator range \<open>[it, end)\<close> is the list of the elements it still has to visit:
  \<open>it \<noteq> end\<close> is \<open>xs \<noteq> []\<close>, \<open>*it\<close> is the head, \<open>++it\<close> the tail, \<open>it + k\<close> is
  \<open>drop k xs\<close> and \<open>end - it\<close> is \<open>length xs\<close>. The formatter keeps \<^verbatim>\<open>row_iter, row_end\<close>
  (field \<open>row_iter\<close>), \<^verbatim>\<open>col_iter\<close> with no end of its own (field \<open>col_iter\<close>: the columns from
  \<^verbatim>\<open>col_iter\<close> on) and \<^verbatim>\<open>val_iter, val_end\<close> (field \<open>val_iter\<close>). The element types are
  the template's: \<open>'r\<close> for the rows, a machine word wherever a row is printed.
\<close>

record ('r, 'c, 'v) triplet_formatter =
  row_iter :: "'r list"
  col_iter :: "'c list"
  val_iter :: "'v list"

text \<open>The nested class \<^verbatim>\<open>triplet_formatter::chunk\<close> has the same five members.\<close>

record ('r, 'c, 'v) triplet_chunk =
  chunk_row_iter :: "'r list"
  chunk_col_iter :: "'c list"
  chunk_val_iter :: "'v list"

text \<open>The constructor: the length checks of lines 41-44, then the members are stored.\<close>

definition new_triplet_formatter ::
  "'r list \<Rightarrow> 'c list \<Rightarrow> 'v list \<Rightarrow> fmm_error + ('r, 'c, 'v) triplet_formatter" where
  "new_triplet_formatter rows cols vals =
     (if int (length rows) \<noteq> int (length cols) \<or>
         (int (length rows) \<noteq> int (length vals) \<and> vals \<noteq> [])
      then Inl invalid_argument
      else Inr \<lparr>row_iter = rows, col_iter = cols, val_iter = vals\<rparr>)"

definition triplet_has_next :: "('r, 'c, 'v) triplet_formatter \<Rightarrow> bool" where
  "triplet_has_next f = (row_iter f \<noteq> [])"

text \<open>
  \<^verbatim>\<open>chunk::operator()\<close>: the loop of lines 64-75 with the string built so far as the
  accumulator. Dereferencing \<^verbatim>\<open>col_iter\<close> beyond the column range has no defined result
  in C++; here it is \<open>None\<close>.
\<close>

fun triplet_chunk_loop ::
  "(int \<Rightarrow> string) \<Rightarrow> ('c \<Rightarrow> string) \<Rightarrow> ('v \<Rightarrow> string) \<Rightarrow>
   string \<Rightarrow> 'w::len word list \<Rightarrow> 'c list \<Rightarrow> 'v list \<Rightarrow> string option" where
  "triplet_chunk_loop its cts vts chunk [] cols vals = Some chunk"
| "triplet_chunk_loop its cts vts chunk (r # rows) [] vals = None"
| "triplet_chunk_loop its cts vts chunk (r # rows) (c # cols) vals =
     triplet_chunk_loop its cts vts
       (chunk @ its (sint (r + 1)) @ kSpace @ cts c @
          (case vals of [] \<Rightarrow> [] | v # _ \<Rightarrow> kSpace @ vts v) @ kNewline)
       rows cols (case vals of [] \<Rightarrow> [] | _ # vs \<Rightarrow> vs)"

definition triplet_chunk_call ::
  "(int \<Rightarrow> string) \<Rightarrow> ('c \<Rightarrow> string) \<Rightarrow> ('v \<Rightarrow> string) \<Rightarrow>
   ('w::len word, 'c, 'v) triplet_chunk \<Rightarrow> string option" where
  "triplet_chunk_call its cts vts c =
     triplet_chunk_loop its cts vts [] (chunk_row_iter c) (chunk_col_iter c) (chunk_val_iter c)"

text \<open>
  \<^verbatim>\<open>next_chunk\<close>, lines 85-100. A negative \<^verbatim>\<open>chunk_size\<close> would move the iterators before
  their range, which C++ leaves undefined: \<open>None\<close>.
\<close>

definition triplet_next_chunk ::
  "write_options \<Rightarrow> ('r, 'c, 'v) triplet_formatter \<Rightarrow>
   (('r, 'c, 'v) triplet_chunk \<times> ('r, 'c, 'v) triplet_formatter) option" where
  "triplet_next_chunk opts f =
     (let chunk_size = min (chunk_size_values opts) (int (length (row_iter f))) in
      if chunk_size < 0 then None
      else
        let row_chunk = take (nat chunk_size) (row_iter f);
            row_chunk_end = drop (nat chunk_size) (row_iter f);
            col_chunk_end = drop (nat chunk_size) (col_iter f);
            val_chunk = (if val_iter f \<noteq> [] then take (nat chunk_size) (val_iter f) else []);
            val_chunk_end = (if val_iter f \<noteq> [] then drop (nat chunk_size) (val_iter f) else [])
        in Some (\<lparr>chunk_row_iter = row_chunk, chunk_col_iter = col_iter f,
                   chunk_val_iter = val_chunk\<rparr>,
                 \<lparr>row_iter = row_chunk_end, col_iter = col_chunk_end,
                   val_iter = val_chunk_end\<rparr>))"

text \<open>
  Modelled from the spec: the write engine's loop over a formatter (``the engine
  repeatedly asks the formatter for the next work unit''), that is
  \<^verbatim>\<open>while (formatter.has_next()) formatter.next_chunk(options)\<close>, collecting the chunks in
  the order they are returned. The loop need not end (a chunk size of 0 never advances),
  so it is a partial function: \<open>None\<close> when it does not return.
\<close>

partial_function (option) triplet_drain ::
  "write_options \<Rightarrow> ('r, 'c, 'v) triplet_formatter \<Rightarrow>
   (('r, 'c, 'v) triplet_chunk list \<times> ('r, 'c, 'v) triplet_formatter) option" where
  "triplet_drain opts f =
     (if triplet_has_next f then
        Option.bind (triplet_next_chunk opts f) (\<lambda>(c, f').
          Option.bind (triplet_drain opts f') (\<lambda>(cs, fe). Some (c # cs, fe)))
      else Some ([], f))"

declare triplet_drain.simps [code]

text \<open>
  The body the spec describes for a triplet source: one line per record, in input order,
  \<^verbatim>\<open>row+1 col+1\<close> when there are no values and \<^verbatim>\<open>row+1 col+1 value\<close> otherwise, where
  \<open>row+1\<close> and \<open>col+1\<close> are the integers one above the indices.
\<close>

definition triplet_body_spec ::
  "(int \<Rightarrow> string) \<Rightarrow> ('v \<Rightarrow> string) \<Rightarrow>
   'w::len word list \<Rightarrow> 'x::len word list \<Rightarrow> 'v list \<Rightarrow> string" where
  "triplet_body_spec its vts rows cols vals =
     (if vals = []
      then concat (map (\<lambda>(r, c). its (sint r + 1) @ [CHR 0x20] @ its (sint c + 1) @ [CHR 0x0A])
                       (zip rows cols))
      else concat (map (\<lambda>(r, c, v). its (sint r + 1) @ [CHR 0x20] @ its (sint c + 1) @ [CHR 0x20] @
                                       vts v @ [CHR 0x0A])
                       (zip rows (zip cols vals))))"


text \<open>
  The invariant of the formatter's iterators that the constructor establishes and
  \<^verbatim>\<open>next_chunk\<close> keeps: as many columns as rows are left, and either no values or as many
  values as rows.
\<close>

definition triplet_ranges_valid :: "('r, 'c, 'v) triplet_formatter \<Rightarrow> bool" where
  "triplet_ranges_valid f =
     (length (col_iter f) = length (row_iter f) \<and>
      (val_iter f = [] \<or> length (val_iter f) = length (row_iter f)))"

text \<open>The line that one pass of the loop body appends, and the lines of a whole chunk.\<close>

definition triplet_line ::
  "(int \<Rightarrow> string) \<Rightarrow> ('c \<Rightarrow> string) \<Rightarrow> ('v \<Rightarrow> string) \<Rightarrow>
   'w::len word \<Rightarrow> 'c \<Rightarrow> 'v option \<Rightarrow> string" where
  "triplet_line its cts vts r c v =
     its (sint (r + 1)) @ kSpace @ cts c @
     (case v of None \<Rightarrow> [] | Some x \<Rightarrow> kSpace @ vts x) @ kNewline"

fun triplet_lines ::
  "(int \<Rightarrow> string) \<Rightarrow> ('c \<Rightarrow> string) \<Rightarrow> ('v \<Rightarrow> string) \<Rightarrow>
   'w::len word list \<Rightarrow> 'c list \<Rightarrow> 'v list \<Rightarrow> string list" where
  "triplet_lines its cts vts (r # rows) (c # cols) vals =
     triplet_line its cts vts r c (case vals of [] \<Rightarrow> None | v # _ \<Rightarrow> Some v) #
     triplet_lines its cts vts rows cols (case vals of [] \<Rightarrow> [] | _ # vs \<Rightarrow> vs)"
| "triplet_lines its cts vts rows cols vals = []"

section \<open>formatters.hpp: the dense formatters\<close>

text \<open>Modelled from the spec: the storage order of a dense source (the \<open>order\<close> of
  section 4.7), declared in \<^verbatim>\<open>fast_matrix_market.hpp\<close>.\<close>

datatype storage_order = row_major | col_major

text \<open>
  \<^verbatim>\<open>array_formatter\<close> (formatters.hpp, lines 222-271). The iterator \<^verbatim>\<open>values\<close> is the list of
  the elements from \<^verbatim>\<open>values\<close> on; \<^verbatim>\<open>*(values + offset)\<close> outside the list has no defined result
  in C++ and is \<open>None\<close> here. The nested class \<^verbatim>\<open>chunk\<close> holds a copy of the same five
  members, so a chunk is a value of the same record. The fields carry the prefix \<open>af_\<close>
  because the header below has \<open>nrows\<close> and \<open>ncols\<close> too.
\<close>

record 'v array_formatter =
  af_values :: "'v list"
  af_order :: storage_order
  af_nrows :: int
  af_ncols :: int
  af_cur_col :: int

definition new_array_formatter ::
  "'v list \<Rightarrow> storage_order \<Rightarrow> int \<Rightarrow> int \<Rightarrow> 'v array_formatter" where
  "new_array_formatter values order nrows ncols =
     \<lparr>af_values = values, af_order = order, af_nrows = nrows, af_ncols = ncols, af_cur_col = 0\<rparr>"

definition array_has_next :: "'v array_formatter \<Rightarrow> bool" where
  "array_has_next f = (af_cur_col f \<noteq> af_ncols f)"

text \<open>\<^verbatim>\<open>chunk::operator()\<close>, lines 237-254: the loop over \<^verbatim>\<open>row\<close>, the string \<open>c\<close> so far.\<close>

function array_chunk_loop ::
  "('v \<Rightarrow> string) \<Rightarrow> 'v array_formatter \<Rightarrow> string \<Rightarrow> int \<Rightarrow> string option" where
  "array_chunk_loop vts ch c row =
     (if row < af_nrows ch then
        (let offset = (if af_order ch = row_major
                       then row * af_ncols ch + af_cur_col ch
                       else af_cur_col ch * af_nrows ch + row)
         in if 0 \<le> offset \<and> offset < int (length (af_values ch))
            then array_chunk_loop vts ch (c @ vts (af_values ch ! nat offset) @ kNewline) (row + 1)
            else None)
      else Some c)"
  by pat_completeness auto
termination
  by (relation "measure (\<lambda>(vts, ch, c, row). nat (af_nrows ch - row))") auto

definition array_chunk_call :: "('v \<Rightarrow> string) \<Rightarrow> 'v array_formatter \<Rightarrow> string option" where
  "array_chunk_call vts ch = array_chunk_loop vts ch [] 0"

text \<open>\<^verbatim>\<open>next_chunk\<close>, lines 262-264: the chunk takes \<^verbatim>\<open>cur_col\<close>, which is then incremented.\<close>

definition array_next_chunk ::
  "write_options \<Rightarrow> 'v array_formatter \<Rightarrow> 'v array_formatter \<times> 'v array_formatter" where
  "array_next_chunk opts f = (f, f\<lparr>af_cur_col := af_cur_col f + 1\<rparr>)"

text \<open>
  Modelled from the spec: the write engine's loop
  \<^verbatim>\<open>while (formatter.has_next()) formatter.next_chunk(options)\<close> over an \<^verbatim>\<open>array_formatter\<close>. With
  a negative \<^verbatim>\<open>ncols\<close> it does not return.
\<close>

partial_function (option) array_drain ::
  "write_options \<Rightarrow> 'v array_formatter \<Rightarrow>
   ('v array_formatter list \<times> 'v array_formatter) option" where
  "array_drain opts f =
     (if array_has_next f then
        Option.bind (array_drain opts (snd (array_next_chunk opts f)))
          (\<lambda>(cs, fe). Some (fst (array_next_chunk opts f) # cs, fe))
      else Some ([], f))"

declare array_drain.simps [code]

text \<open>
  \<^verbatim>\<open>row_major_array_formatter\<close> (the second formatters header, lines 222-261 of
  \<^verbatim>\<open>src/unnamed/part_000\<close>) over a \<^verbatim>\<open>std::vector\<close>. The constructor computes
  \<^verbatim>\<open>ncols(values.size() / nrows)\<close>: the division is unsigned (the \<^verbatim>\<open>int64_t\<close> is converted to
  \<^verbatim>\<open>size_t\<close>), and division by zero has no defined result: \<open>None\<close>.
\<close>

record 'v row_major_array_formatter =
  rm_values :: "'v list"
  rm_nrows :: int
  rm_ncols :: int
  rm_cur_row :: int

definition new_row_major_array_formatter ::
  "'v list \<Rightarrow> int \<Rightarrow> 'v row_major_array_formatter option" where
  "new_row_major_array_formatter values nrows =
     (if nrows mod 2 ^ 64 = 0 then None
      else Some \<lparr>rm_values = values, rm_nrows = nrows,
                  rm_ncols = int (length values) div (nrows mod 2 ^ 64), rm_cur_row = 0\<rparr>)"

definition row_major_has_next :: "'v row_major_array_formatter \<Rightarrow> bool" where
  "row_major_has_next f = (rm_cur_row f \<noteq> rm_nrows f)"

text \<open>\<^verbatim>\<open>chunk::operator()\<close>, lines 236-246: the loop over \<^verbatim>\<open>i\<close>; \<^verbatim>\<open>values[...]\<close> outside the
  vector is \<open>None\<close>.\<close>

function row_major_chunk_loop ::
  "('v \<Rightarrow> string) \<Rightarrow> 'v row_major_array_formatter \<Rightarrow> string \<Rightarrow> int \<Rightarrow> string option" where
  "row_major_chunk_loop vts ch c i =
     (if i < rm_ncols ch then
        (let k = rm_cur_row ch * rm_ncols ch + i
         in if 0 \<le> k \<and> k < int (length (rm_values ch))
            then row_major_chunk_loop vts ch (c @ vts (rm_values ch ! nat k) @ kNewline) (i + 1)
            else None)
      else Some c)"
  by pat_completeness auto
termination
  by (relation "measure (\<lambda>(vts, ch, c, i). nat (rm_ncols ch - i))") auto

definition row_major_chunk_call ::
  "('v \<Rightarrow> string) \<Rightarrow> 'v row_major_array_formatter \<Rightarrow> string option" where
  "row_major_chunk_call vts ch = row_major_chunk_loop vts ch [] 0"

definition row_major_next_chunk ::
  "write_options \<Rightarrow> 'v row_major_array_formatter \<Rightarrow>
   'v row_major_array_formatter \<times> 'v row_major_array_formatter" where
  "row_major_next_chunk opts f = (f, f\<lparr>rm_cur_row := rm_cur_row f + 1\<rparr>)"

text \<open>
  Modelled from the spec: the write engine's loop
  \<^verbatim>\<open>while (formatter.has_next()) formatter.next_chunk(options)\<close> over a
  \<^verbatim>\<open>row_major_array_formatter\<close>.
\<close>

partial_function (option) row_major_drain ::
  "write_options \<Rightarrow> 'v row_major_array_formatter \<Rightarrow>
   ('v row_major_array_formatter list \<times> 'v row_major_array_formatter) option" where
  "row_major_drain opts f =
     (if row_major_has_next f then
        Option.bind (row_major_drain opts (snd (row_major_next_chunk opts f)))
          (\<lambda>(cs, fe). Some (fst (row_major_next_chunk opts f) # cs, fe))
      else Some ([], f))"

declare row_major_drain.simps [code]

text \<open>
  The element \<open>(row, col)\<close> of the \<open>nrows\<close> by \<open>ncols\<close> matrix that a value list stores in
  the given order, and the values of the matrix in column-major order (the column index
  outermost), which is what the spec requires every dense formatter to emit.
\<close>

definition matrix_element :: "'v list \<Rightarrow> storage_order \<Rightarrow> nat \<Rightarrow> nat \<Rightarrow> nat \<Rightarrow> nat \<Rightarrow> 'v" where
  "matrix_element values order nrows ncols row col =
     values ! (if order = row_major then row * ncols + col else col * nrows + row)"

definition column_major_values :: "'v list \<Rightarrow> storage_order \<Rightarrow> nat \<Rightarrow> nat \<Rightarrow> 'v list" where
  "column_major_values values order nrows ncols =
     concat (map (\<lambda>col. map (\<lambda>row. matrix_element values order nrows ncols row col) [0..<nrows])
                 [0..<ncols])"

text \<open>One value per line: the text of a list of values.\<close>

definition value_lines :: "('v \<Rightarrow> string) \<Rightarrow> 'v list \<Rightarrow> string" where
  "value_lines vts vs = concat (map (\<lambda>v. vts v @ [CHR 0x0A]) vs)"

text \<open>The values of the matrix with the row index outermost.\<close>

definition row_major_values :: "'v list \<Rightarrow> storage_order \<Rightarrow> nat \<Rightarrow> nat \<Rightarrow> 'v list" where
  "row_major_values values order nrows ncols =
     concat (map (\<lambda>row. map (\<lambda>col. matrix_element values order nrows ncols row col) [0..<ncols])
                 [0..<nrows])"

text \<open>The offset that \<^verbatim>\<open>array_formatter::chunk\<close> reads for a row (lines 242-247).\<close>

definition array_offset :: "'v array_formatter \<Rightarrow> int \<Rightarrow> int" where
  "array_offset ch row =
     (if af_order ch = row_major then row * af_ncols ch + af_cur_col ch
      else af_cur_col ch * af_nrows ch + row)"

declare array_chunk_loop.simps [simp del] row_major_chunk_loop.simps [simp del]

section \<open>formatters.hpp: the partition of the CSC formatter\<close>

text \<open>
  \<^verbatim>\<open>csc_formatter\<close> (lines 111-217). The pointer iterators are positions in the pointer
  array; the constructor needs only the lengths of the three ranges, and \<^verbatim>\<open>next_chunk\<close>
  only moves \<^verbatim>\<open>ptr_iter\<close>. The member \<^verbatim>\<open>nnz_per_column\<close> is a \<^verbatim>\<open>double\<close>; it is a real number
  here, which is exact wherever the quotient and the product are representable (as for the
  small integers used below). The cast \<^verbatim>\<open>(int64_t)\<close> truncates towards zero.
\<close>

record csc_formatter =
  ptr_iter :: int
  ptr_end :: int
  nnz_per_column :: real

definition truncate_to_int64 :: "real \<Rightarrow> int" where
  "truncate_to_int64 x = (if 0 \<le> x then \<lfloor>x\<rfloor> else \<lceil>x\<rceil>)"

text \<open>The constructor, lines 114-129, given the lengths \<^verbatim>\<open>ptr_end - ptr_begin\<close>,
  \<^verbatim>\<open>ind_end - ind_begin\<close> and \<^verbatim>\<open>val_end - val_begin\<close>.\<close>

definition new_csc_formatter :: "int \<Rightarrow> int \<Rightarrow> int \<Rightarrow> fmm_error + csc_formatter" where
  "new_csc_formatter ptr_len ind_len val_len =
     (if ind_len \<noteq> val_len \<and> val_len \<noteq> 0 then Inl invalid_argument
      else
        let num_columns = ptr_len;
            nnz = ind_len
        in Inr \<lparr>ptr_iter = 0, ptr_end = ptr_len,
                 nnz_per_column = real_of_int nnz / real_of_int num_columns\<rparr>)"

definition csc_has_next :: "csc_formatter \<Rightarrow> bool" where
  "csc_has_next f = (ptr_iter f \<noteq> ptr_end f)"

text \<open>\<^verbatim>\<open>next_chunk\<close>, lines 195-209. The chunk is the column range
  \<open>[ptr_iter, ptr_chunk_end)\<close>; the result is that range and the advanced formatter.\<close>

definition csc_next_chunk ::
  "write_options \<Rightarrow> csc_formatter \<Rightarrow> (int \<times> int) \<times> csc_formatter" where
  "csc_next_chunk opts f =
     (let num_columns =
            truncate_to_int64 (nnz_per_column f * real_of_int (chunk_size_values opts) + 1);
          num_columns = min num_columns (ptr_end f - ptr_iter f);
          ptr_chunk_end = ptr_iter f + num_columns
      in ((ptr_iter f, ptr_chunk_end), f\<lparr>ptr_iter := ptr_chunk_end\<rparr>))"

section \<open>The Python binding: \<^verbatim>\<open>triplet_numpy_parse_handler\<close>\<close>

text \<open>
  The handler (lines 549-579 of \<^verbatim>\<open>src/unnamed/part_000\<close>) holds references to three NumPy
  arrays and its own \<^verbatim>\<open>offset\<close>. All chunk handlers refer to the same three arrays, so
  the arrays are a store of their own, from index to element (fields \<open>np_rows\<close>,
  \<open>np_cols\<close>, \<open>np_values\<close> for the members \<^verbatim>\<open>rows\<close>, \<^verbatim>\<open>cols\<close>, \<^verbatim>\<open>values\<close>); the accessors
  are the unchecked ones, which write to whatever index they are given. A handler is its
  offset.
\<close>

record ('i, 'v) triplet_arrays =
  np_rows :: "int \<Rightarrow> 'i"
  np_cols :: "int \<Rightarrow> 'i"
  np_values :: "int \<Rightarrow> 'v"

record triplet_numpy_parse_handler =
  offset :: int

definition handle ::
  "triplet_numpy_parse_handler \<Rightarrow> 'i \<Rightarrow> 'i \<Rightarrow> 'v \<Rightarrow> ('i, 'v) triplet_arrays \<Rightarrow>
   triplet_numpy_parse_handler \<times> ('i, 'v) triplet_arrays" where
  "handle h row col value mem =
     (h\<lparr>offset := offset h + 1\<rparr>,
      mem\<lparr>np_rows := (np_rows mem)(offset h := row),
          np_cols := (np_cols mem)(offset h := col),
          np_values := (np_values mem)(offset h := value)\<rparr>)"

definition get_chunk_handler ::
  "triplet_numpy_parse_handler \<Rightarrow> int \<Rightarrow> triplet_numpy_parse_handler" where
  "get_chunk_handler h offset_from_begin = \<lparr>offset = offset_from_begin\<rparr>"

text \<open>A sequence of \<^verbatim>\<open>handle\<close> calls on one handler, in order.\<close>

fun handle_all ::
  "triplet_numpy_parse_handler \<Rightarrow> ('i \<times> 'i \<times> 'v) list \<Rightarrow> ('i, 'v) triplet_arrays \<Rightarrow>
   triplet_numpy_parse_handler \<times> ('i, 'v) triplet_arrays" where
  "handle_all h [] mem = (h, mem)"
| "handle_all h ((row, col, value) # recs) mem =
     (case handle h row col value mem of (h', mem') \<Rightarrow> handle_all h' recs mem')"

section \<open>The parallel read engine: \<^verbatim>\<open>read_body_threads\<close>\<close>

subsection \<open>Header, line counts and the records of a chunk\<close>

text \<open>
  Modelled from the spec: the header of section 3 (declared in \<^verbatim>\<open>fast_matrix_market.hpp\<close>),
  with the fields that \<^verbatim>\<open>read_body_threads\<close> reads, and \<open>nrows\<close>.
\<close>

datatype object_type = matrix | vector

datatype format_type = coordinate | array

record matrix_market_header =
  object :: object_type
  format :: format_type
  nrows :: int
  ncols :: int
  header_line_count :: int

record line_count_result =
  chunk :: string
  chunk_line_start :: int
  chunk_line_count :: int

text \<open>
  \<^verbatim>\<open>count_chunk_lines\<close> (lines 282-285) calls \<^verbatim>\<open>count_lines\<close>, which is declared in
  \<^verbatim>\<open>fast_matrix_market.hpp\<close>: it is the parameter \<open>cl\<close> of the engine.
\<close>

definition count_chunk_lines :: "(string \<Rightarrow> int) \<Rightarrow> line_count_result \<Rightarrow> line_count_result" where
  "count_chunk_lines cl lcr = lcr\<lparr>chunk_line_count := cl (chunk lcr)\<rparr>"

text \<open>
  Modelled from the spec: \<^verbatim>\<open>count_lines\<close>, the line counter of section 4.4 (``the count of
  newline-terminated lines plus one if the chunk ends without a trailing newline and
  contains content''; blank lines are counted).
\<close>

definition count_lines :: "string \<Rightarrow> int" where
  "count_lines s =
     int (length (filter (\<lambda>c. c = CHR 0x0A) s)) +
     (if s \<noteq> [] \<and> last s \<noteq> CHR 0x0A then 1 else 0)"

text \<open>
  Modelled from the spec: the lines of a chunk and its records. A record is a line that is
  not blank (``blank/whitespace-only lines inside a chunk are allowed and are skipped by
  parsers''; ``record ordinals are advanced only by parsers when a record is actually
  consumed''). \<open>chunk_lines cur s\<close> splits \<open>s\<close> at the newlines, \<open>cur\<close> being the
  line read so far.
\<close>

fun chunk_lines :: "string \<Rightarrow> string \<Rightarrow> string list" where
  "chunk_lines cur [] = (if cur = [] then [] else [cur])"
| "chunk_lines cur (c # s) =
     (if c = CHR 0x0A then cur # chunk_lines [] s else chunk_lines (cur @ [c]) s)"

definition is_blank :: "string \<Rightarrow> bool" where
  "is_blank l = (\<forall>c \<in> set l. c = CHR 0x20 \<or> c = CHR 0x09 \<or> c = CHR 0x0D)"

definition count_records :: "string \<Rightarrow> int" where
  "count_records s = int (length (filter (\<lambda>l. \<not> is_blank l) (chunk_lines [] s)))"

subsection \<open>The state of the engine\<close>

text \<open>
  A \<^verbatim>\<open>std::future\<close> of a line count: \<open>Pending lcr\<close> while the task
  \<^verbatim>\<open>count_chunk_lines(lcr)\<close> is queued or running, \<open>Ready r\<close> once its result \<open>r\<close> is there.
\<close>

datatype 'a future = Pending 'a | Ready 'a

fun is_ready :: "'a future \<Rightarrow> bool" where
  "is_ready (Ready r) = True"
| "is_ready (Pending a) = False"

fun future_arg :: "'a future \<Rightarrow> 'a" where
  "future_arg (Ready r) = r"
| "future_arg (Pending a) = a"

text \<open>
  The three parse tasks that the loop submits (lines 358-368), with what the lambda
  captures: the chunk, \<^verbatim>\<open>chunk_line_start\<close>, the chunk handler (given by the offset passed
  to \<^verbatim>\<open>handler.get_chunk_handler\<close>) and, for arrays, the starting \<^verbatim>\<open>row\<close> and \<^verbatim>\<open>col\<close>.
\<close>

datatype parse_task =
    read_chunk_array string int int int int
  | read_chunk_matrix_coordinate string int int
  | read_chunk_vector_coordinate string int int

fun task_chunk :: "parse_task \<Rightarrow> string" where
  "task_chunk (read_chunk_array c ls off row col) = c"
| "task_chunk (read_chunk_matrix_coordinate c ls off) = c"
| "task_chunk (read_chunk_vector_coordinate c ls off) = c"

fun task_line_start :: "parse_task \<Rightarrow> int" where
  "task_line_start (read_chunk_array c ls off row col) = ls"
| "task_line_start (read_chunk_matrix_coordinate c ls off) = ls"
| "task_line_start (read_chunk_vector_coordinate c ls off) = ls"

fun task_handler_offset :: "parse_task \<Rightarrow> int" where
  "task_handler_offset (read_chunk_array c ls off row col) = off"
| "task_handler_offset (read_chunk_matrix_coordinate c ls off) = off"
| "task_handler_offset (read_chunk_vector_coordinate c ls off) = off"

text \<open>
  Where the main thread is: in the seeding loop with counter \<^verbatim>\<open>seed_i\<close>; at the head of
  the \<^verbatim>\<open>while\<close> loop (line 331); inside its \<^verbatim>\<open>if\<close> branch after the replacement chunk has
  been submitted (between lines 341 and 344); in \<^verbatim>\<open>pool.wait_for_tasks()\<close>; returned with a
  value; or stopped by the integer division by zero of lines 355-356, which C++ leaves
  undefined.
\<close>

datatype control =
  Seeding nat | Dispatching | Replaced | Joining | Returned int | DivisionByZero

text \<open>
  The input stream is the list of the chunks that \<^verbatim>\<open>get_next_chunk\<close> (declared in
  \<^verbatim>\<open>fast_matrix_market.hpp\<close>) returns one after the other while \<^verbatim>\<open>instream.good()\<close> holds:
  \<^verbatim>\<open>good()\<close> is \<open>instream s \<noteq> []\<close>. The pool's tasks are the pending line-count futures
  and the parse tasks submitted and not finished (\<open>parse_unfinished\<close>); \<open>parse_tasks\<close>
  lists every parse task in submission order.
\<close>

record read_state =
  instream :: "string list"
  line_num :: int
  line_count_futures :: "line_count_result future list"
  parse_tasks :: "parse_task list"
  parse_unfinished :: nat
  control :: control

text \<open>\<^verbatim>\<open>pool.get_tasks_total()\<close>: the tasks queued or running.\<close>

definition get_tasks_total :: "read_state \<Rightarrow> nat" where
  "get_tasks_total s =
     length (filter (\<lambda>f. \<not> is_ready f) (line_count_futures s)) + parse_unfinished s"

text \<open>\<^verbatim>\<open>const unsigned inflight_count = 10 * pool.get_thread_count()\<close>, an unsigned 32-bit
  product; \<open>tc\<close> is the pool's thread count.\<close>

definition inflight_count :: "nat \<Rightarrow> nat" where
  "inflight_count tc = (10 * tc) mod 2 ^ 32"

text \<open>Lines 324-327 and 337-340: read a chunk and submit its line count.\<close>

definition submit_line_count :: "read_state \<Rightarrow> read_state" where
  "submit_line_count s =
     (case instream s of
        [] \<Rightarrow> s
      | c # rest \<Rightarrow>
          s\<lparr>instream := rest,
            line_count_futures := line_count_futures s @
              [Pending \<lparr>chunk = c, chunk_line_start = - 1, chunk_line_count = - 1\<rparr>]\<rparr>)"

definition submit_parse :: "parse_task \<Rightarrow> read_state \<Rightarrow> read_state" where
  "submit_parse t s =
     s\<lparr>parse_tasks := parse_tasks s @ [t], parse_unfinished := parse_unfinished s + 1\<rparr>"

text \<open>
  Lines 344-369: take the front result, assign \<^verbatim>\<open>chunk_line_start\<close>, advance \<^verbatim>\<open>line_num\<close>,
  and submit the parse task. C++ integer division truncates: \<open>smod\<close> and \<open>sdiv\<close>.
\<close>

definition dispatch :: "matrix_market_header \<Rightarrow> read_state \<Rightarrow> read_state" where
  "dispatch header s =
     (case line_count_futures s of
        Ready r # rest \<Rightarrow>
          (let lcr = r\<lparr>chunk_line_start := line_num s\<rparr>;
               s1 = s\<lparr>line_count_futures := rest,
                      line_num := line_num s + chunk_line_count lcr\<rparr>;
               body_line = chunk_line_start lcr - header_line_count header
           in if format header = array then
                (if ncols header = 0 then s1\<lparr>control := DivisionByZero\<rparr>
                 else submit_parse
                        (read_chunk_array (chunk lcr) (chunk_line_start lcr) body_line
                           (body_line smod ncols header) (body_line sdiv ncols header)) s1)
              else if object header = matrix then
                submit_parse
                  (read_chunk_matrix_coordinate (chunk lcr) (chunk_line_start lcr) body_line) s1
              else
                submit_parse
                  (read_chunk_vector_coordinate (chunk lcr) (chunk_line_start lcr) body_line) s1)
      | _ \<Rightarrow> s)"

text \<open>
  One step of the main thread: one pass of the seeding loop (line 323); the first half of
  a pass of the \<^verbatim>\<open>while\<close> loop (lines 331-341: the test and the replacement chunk; the
  \<^verbatim>\<open>else\<close> branch yields and changes nothing); its second half (lines 344-369: the front
  future is taken and its chunk dispatched); or the return once \<^verbatim>\<open>wait_for_tasks\<close> finds
  no task left. The pass is cut where the queue is longest, after the push of line 340
  and before the pop of line 345, so that the workers can run in between.
\<close>

definition main_step :: "nat \<Rightarrow> matrix_market_header \<Rightarrow> read_state \<Rightarrow> read_state" where
  "main_step tc header s =
     (case control s of
        Seeding seed_i \<Rightarrow>
          if seed_i < inflight_count tc \<and> instream s \<noteq> []
          then (submit_line_count s)\<lparr>control := Seeding (seed_i + 1)\<rparr>
          else s\<lparr>control := Dispatching\<rparr>
      | Dispatching \<Rightarrow>
          (case line_count_futures s of
             [] \<Rightarrow> s\<lparr>control := Joining\<rparr>
           | front # rest \<Rightarrow>
               if get_tasks_total s < inflight_count tc \<and> is_ready front
               then (if instream s \<noteq> [] then submit_line_count s else s)\<lparr>control := Replaced\<rparr>
               else s)
      | Replaced \<Rightarrow> dispatch header (s\<lparr>control := Dispatching\<rparr>)
      | Joining \<Rightarrow>
          if get_tasks_total s = 0 then s\<lparr>control := Returned (line_num s)\<rparr> else s
      | Returned r \<Rightarrow> s
      | DivisionByZero \<Rightarrow> s)"

text \<open>
  The pool's workers: a pending line count finishes (its future becomes ready with the
  result of \<^verbatim>\<open>count_chunk_lines\<close> and the task leaves the pool's count, in one step), or a
  parse task finishes. Any unfinished task may be the next to finish, which covers every
  order in which a pool of any size completes them.
\<close>

datatype event = Main | LineCountDone nat | ParseDone

definition line_count_done :: "(string \<Rightarrow> int) \<Rightarrow> nat \<Rightarrow> read_state \<Rightarrow> read_state" where
  "line_count_done cl k s =
     (if k < length (line_count_futures s) then
        (case line_count_futures s ! k of
           Pending lcr \<Rightarrow>
             s\<lparr>line_count_futures := (line_count_futures s)[k := Ready (count_chunk_lines cl lcr)]\<rparr>
         | Ready r \<Rightarrow> s)
      else s)"

definition parse_done :: "read_state \<Rightarrow> read_state" where
  "parse_done s =
     (if 0 < parse_unfinished s then s\<lparr>parse_unfinished := parse_unfinished s - 1\<rparr> else s)"

fun exec :: "(string \<Rightarrow> int) \<Rightarrow> nat \<Rightarrow> matrix_market_header \<Rightarrow> event \<Rightarrow> read_state \<Rightarrow> read_state" where
  "exec cl tc header Main s = main_step tc header s"
| "exec cl tc header (LineCountDone k) s = line_count_done cl k s"
| "exec cl tc header ParseDone s = parse_done s"

text \<open>The state on entry (line 312) over the chunks of the stream, and a run of events.\<close>

definition read_body_threads_init :: "matrix_market_header \<Rightarrow> string list \<Rightarrow> read_state" where
  "read_body_threads_init header chunks =
     \<lparr>instream = chunks, line_num = header_line_count header, line_count_futures = [],
      parse_tasks = [], parse_unfinished = 0, control = Seeding 0\<rparr>"

definition read_body_threads ::
  "(string \<Rightarrow> int) \<Rightarrow> nat \<Rightarrow> matrix_market_header \<Rightarrow> string list \<Rightarrow> event list \<Rightarrow> read_state" where
  "read_body_threads cl tc header chunks es =
     fold (exec cl tc header) es (read_body_threads_init header chunks)"

subsection \<open>What the engine is expected to assign\<close>

text \<open>
  The line starts in stream order: the first chunk starts at \<open>n\<close>, each later one where the
  one before it ends. \<open>task_key\<close> is what a parse task was given.
\<close>

fun assign_line_starts :: "(string \<Rightarrow> int) \<Rightarrow> int \<Rightarrow> string list \<Rightarrow> (string \<times> int) list" where
  "assign_line_starts cl n [] = []"
| "assign_line_starts cl n (c # cs) = (c, n) # assign_line_starts cl (n + cl c) cs"

definition task_key :: "parse_task \<Rightarrow> string \<times> int" where
  "task_key t = (task_chunk t, task_line_start t)"

definition unread_chunks :: "read_state \<Rightarrow> string list" where
  "unread_chunks s = map (\<lambda>f. chunk (future_arg f)) (line_count_futures s) @ instream s"

text \<open>
  The invariants of the engine. \<open>inv_order\<close>: the parse tasks submitted so far, followed
  by the chunks still queued or unread, are the chunks of the stream with their line
  starts, and every ready future holds the line count of its chunk. \<open>inv_control\<close>: the
  bounds on the queue and on the unfinished parse tasks, and what holds at each place of
  the main thread. \<open>inv_offsets\<close>: what each parse task was given besides its chunk.
\<close>

definition inv_order ::
  "(string \<Rightarrow> int) \<Rightarrow> matrix_market_header \<Rightarrow> string list \<Rightarrow> read_state \<Rightarrow> bool" where
  "inv_order cl header chunks s =
     ((control s \<noteq> DivisionByZero \<longrightarrow>
         map task_key (parse_tasks s) @ assign_line_starts cl (line_num s) (unread_chunks s) =
           assign_line_starts cl (header_line_count header) chunks \<and>
         header_line_count header + sum_list (map (\<lambda>t. cl (task_chunk t)) (parse_tasks s)) =
           line_num s) \<and>
      take (length (parse_tasks s)) (assign_line_starts cl (header_line_count header) chunks) =
        map task_key (parse_tasks s) \<and>
      (\<forall>f \<in> set (line_count_futures s).
         is_ready f \<longrightarrow> chunk_line_count (future_arg f) = cl (chunk (future_arg f))))"

definition inv_control :: "nat \<Rightarrow> matrix_market_header \<Rightarrow> read_state \<Rightarrow> bool" where
  "inv_control tc header s =
     (length (line_count_futures s) \<le> inflight_count tc + 1 \<and>
      (control s \<noteq> Replaced \<longrightarrow> length (line_count_futures s) \<le> inflight_count tc) \<and>
      parse_unfinished s \<le> inflight_count tc \<and>
      length (line_count_futures s) + parse_unfinished s \<le> 2 * inflight_count tc \<and>
      (case control s of
         Seeding seed_i \<Rightarrow>
           length (line_count_futures s) = seed_i \<and> parse_tasks s = [] \<and> parse_unfinished s = 0
       | Dispatching \<Rightarrow>
           instream s \<noteq> [] \<longrightarrow> length (line_count_futures s) = inflight_count tc
       | Replaced \<Rightarrow>
           (\<exists>r rest. line_count_futures s = Ready r # rest) \<and>
           parse_unfinished s < inflight_count tc \<and>
           (instream s \<noteq> [] \<longrightarrow> length (line_count_futures s) = inflight_count tc + 1)
       | Joining \<Rightarrow>
           line_count_futures s = [] \<and> (0 < inflight_count tc \<longrightarrow> instream s = [])
       | Returned r \<Rightarrow>
           line_count_futures s = [] \<and> (0 < inflight_count tc \<longrightarrow> instream s = []) \<and>
           r = line_num s
       | DivisionByZero \<Rightarrow> format header = array \<and> ncols header = 0))"

definition inv_offsets :: "matrix_market_header \<Rightarrow> read_state \<Rightarrow> bool" where
  "inv_offsets header s =
     (\<forall>t \<in> set (parse_tasks s).
        task_handler_offset t = task_line_start t - header_line_count header \<and>
        (case t of
           read_chunk_array c ls off row col \<Rightarrow>
             format header = array \<and> row = off smod ncols header \<and> col = off sdiv ncols header
         | read_chunk_matrix_coordinate c ls off \<Rightarrow>
             format header \<noteq> array \<and> object header = matrix
         | read_chunk_vector_coordinate c ls off \<Rightarrow>
             format header \<noteq> array \<and> object header \<noteq> matrix))"

text \<open>
  What holds in every run over a non-empty stream when the header is an array with
  \<open>ncols = 0\<close>: the main thread has not left the loops, and the queue is not empty (or the
  first chunk is still to be read), until the division of line 355 stops it.
\<close>

definition inv_no_columns :: "read_state \<Rightarrow> bool" where
  "inv_no_columns s =
     (case control s of
        Seeding seed_i \<Rightarrow> line_count_futures s \<noteq> [] \<or> (seed_i = 0 \<and> instream s \<noteq> [])
      | Dispatching \<Rightarrow> line_count_futures s \<noteq> []
      | Replaced \<Rightarrow> (\<exists>r rest. line_count_futures s = Ready r # rest)
      | Joining \<Rightarrow> False
      | Returned r \<Rightarrow> False
      | DivisionByZero \<Rightarrow> True)"

text \<open>
  A schedule that always lets the run advance, and the measure that each of its steps
  decreases: the weights of an unread chunk, a pending line count, a ready one and an
  unfinished parse task fall in this order, and so do the ranks of the places of the main
  thread, by enough to pay for the way back from the second half of a pass to the head of
  the loop.
\<close>

definition finish_some :: "read_state \<Rightarrow> event" where
  "finish_some s =
     (if 0 < parse_unfinished s then ParseDone
      else LineCountDone (length (takeWhile is_ready (line_count_futures s))))"

definition next_event :: "nat \<Rightarrow> read_state \<Rightarrow> event" where
  "next_event tc s =
     (case control s of
        Dispatching \<Rightarrow>
          (case line_count_futures s of
             [] \<Rightarrow> Main
           | front # rest \<Rightarrow>
               if \<not> is_ready front then LineCountDone 0
               else if get_tasks_total s < inflight_count tc then Main
               else finish_some s)
      | Joining \<Rightarrow> if get_tasks_total s = 0 then Main else finish_some s
      | _ \<Rightarrow> Main)"

fun control_rank :: "control \<Rightarrow> nat" where
  "control_rank (Seeding seed_i) = 4"
| "control_rank Dispatching = 3"
| "control_rank Replaced = 2"
| "control_rank Joining = 1"
| "control_rank (Returned r) = 0"
| "control_rank DivisionByZero = 0"

definition steps_left :: "read_state \<Rightarrow> nat" where
  "steps_left s =
     6 * length (instream s) +
     5 * length (filter (\<lambda>f. \<not> is_ready f) (line_count_futures s)) +
     4 * length (filter is_ready (line_count_futures s)) +
     parse_unfinished s + control_rank (control s)"

section \<open>Properties of the triplet formatter\<close>

lemma triplet_chunk_loop_acc:
  "triplet_chunk_loop its cts vts acc rows cols vals =
     map_option ((@) acc) (triplet_chunk_loop its cts vts [] rows cols vals)"
proof (induction rows arbitrary: acc cols vals)
  case Nil
  show ?case by simp
next
  case (Cons r rows)
  show ?case
  proof (cases cols)
    case Nil
    then show ?thesis by simp
  next
    case (Cons c cols')
    show ?thesis
      unfolding Cons
      apply (simp only: triplet_chunk_loop.simps)
      apply (subst Cons.IH)
      apply (subst (2) Cons.IH)
      apply (simp add: option.map_comp comp_def)
      apply (intro map_option_cong refl)
      apply simp
      done
  qed
qed

lemma triplet_chunk_loop_lines:
  "length rows \<le> length cols \<Longrightarrow>
   triplet_chunk_loop its cts vts [] rows cols vals =
     Some (concat (triplet_lines its cts vts rows cols vals))"
proof (induction rows arbitrary: cols vals)
  case Nil
  show ?case by simp
next
  case (Cons r rows)
  then obtain c cols' where c: "cols = c # cols'" by (cases cols) auto
  with Cons.prems have "length rows \<le> length cols'" by simp
  from Cons.IH [OF this] show ?case
    unfolding c
    apply (simp only: triplet_chunk_loop.simps)
    apply (subst triplet_chunk_loop_acc)
    apply (simp add: triplet_line_def split: list.splits)
    done
qed

lemma triplet_lines_append:
  "length cols = length rows \<Longrightarrow> vals = [] \<or> length vals = length rows \<Longrightarrow>
   triplet_lines its cts vts rows cols vals =
     triplet_lines its cts vts (take n rows) cols (take n vals) @
     triplet_lines its cts vts (drop n rows) (drop n cols) (drop n vals)"
proof (induction rows arbitrary: cols vals n)
  case Nil
  then show ?case by simp
next
  case (Cons r rows)
  then obtain c cols' where c: "cols = c # cols'" by (cases cols) auto
  show ?case
  proof (cases n)
    case 0
    then show ?thesis by simp
  next
    case (Suc m)
    from Cons.prems c have l: "length cols' = length rows" by simp
    show ?thesis
    proof (cases vals)
      case Nil
      with Cons.IH [OF l, of "[]" m] show ?thesis by (simp add: c Suc)
    next
      case (Cons v vs)
      with Cons.prems have "vs = [] \<or> length vs = length rows" by simp
      from Cons.IH [OF l this, of m] show ?thesis by (simp add: c Suc Cons)
    qed
  qed
qed

text \<open>Below the largest value of its type, an index plus one does not wrap.\<close>

lemma sint_succ:
  fixes r :: "'w::len word"
  assumes "sint r + 1 < 2 ^ (LENGTH('w) - 1)"
  shows "sint (r + 1) = sint r + 1"
proof -
  have "r + 1 = word_of_int (sint r + 1)" by simp
  then have "sint (r + 1) = signed_take_bit (LENGTH('w) - 1) (sint r + 1)"
    by (simp only: sint_sbintrunc')
  moreover have "- (2 ^ (LENGTH('w) - 1)) \<le> sint r + 1"
    using sint_ge [of r] by simp
  ultimately show ?thesis
    using assms by (simp add: signed_take_bit_int_eq_self)
qed

lemma triplet_lines_spec:
  fixes rows :: "'w::len word list" and cols :: "'x::len word list"
  assumes "length cols = length rows" and "vals = [] \<or> length vals = length rows"
    and "\<forall>r \<in> set rows. sint r + 1 < 2 ^ (LENGTH('w) - 1)"
    and "\<forall>c \<in> set cols. sint c + 1 < 2 ^ (LENGTH('x) - 1)"
  shows "concat (triplet_lines its (column_to_str_index its) vts rows cols vals) =
     triplet_body_spec its vts rows cols vals"
  using assms
proof (induction rows arbitrary: cols vals)
  case Nil
  then show ?case by (simp add: triplet_body_spec_def)
next
  case (Cons r rows)
  then obtain c cols' where c: "cols = c # cols'" by (cases cols) auto
  from Cons.prems c have l: "length cols' = length rows" by simp
  from Cons.prems c have br: "\<forall>r \<in> set rows. sint r + 1 < 2 ^ (LENGTH('w) - 1)"
    and bc: "\<forall>c \<in> set cols'. sint c + 1 < 2 ^ (LENGTH('x) - 1)"
    and r: "sint (r + 1) = sint r + 1" and cc: "sint (c + 1) = sint c + 1"
    by (simp_all add: sint_succ)
  show ?case
  proof (cases vals)
    case Nil
    with Cons.IH [OF l _ br bc, of "[]"] show ?thesis
      by (simp add: c r cc triplet_body_spec_def triplet_line_def column_to_str_index_def
            kSpace_def kNewline_def)
  next
    case (Cons v vs)
    with Cons.prems have vs: "vs = [] \<or> length vs = length rows" by simp
    show ?thesis
    proof (cases "vs = []")
      case True
      with Cons Cons.prems have "rows = []" by simp
      then show ?thesis using Cons True c l
        by (simp add: r cc triplet_body_spec_def triplet_line_def column_to_str_index_def
            kSpace_def kNewline_def)
    next
      case False
      with Cons.IH [OF l vs br bc] show ?thesis using Cons c
        by (simp add: r cc triplet_body_spec_def triplet_line_def column_to_str_index_def
            kSpace_def kNewline_def)
    qed
  qed
qed

lemma triplet_lines_last:
  "concat (triplet_lines its cts vts rows cols vals) \<noteq> [] \<Longrightarrow>
   last (concat (triplet_lines its cts vts rows cols vals)) = CHR 0x0A"
proof (induction its cts vts rows cols vals rule: triplet_lines.induct)
  case (1 its cts vts r rows c cols vals)
  let ?rest = "concat (triplet_lines its cts vts rows cols (case vals of [] \<Rightarrow> [] | _ # vs \<Rightarrow> vs))"
  show ?case
  proof (cases "?rest = []")
    case True
    then show ?thesis by (simp add: triplet_line_def kNewline_def)
  next
    case False
    with "1.IH" show ?thesis by simp
  qed
qed simp_all

lemma triplet_next_chunk_valid:
  assumes "triplet_ranges_valid f" and "triplet_has_next f" and "1 \<le> chunk_size_values opts"
  defines "n \<equiv> nat (min (chunk_size_values opts) (int (length (row_iter f))))"
  shows "triplet_next_chunk opts f =
           Some (\<lparr>chunk_row_iter = take n (row_iter f), chunk_col_iter = col_iter f,
                   chunk_val_iter = take n (val_iter f)\<rparr>,
                 \<lparr>row_iter = drop n (row_iter f), col_iter = drop n (col_iter f),
                   val_iter = drop n (val_iter f)\<rparr>)"
    and "0 < n" and "n \<le> length (row_iter f)"
  using assms by (auto simp: triplet_next_chunk_def Let_def triplet_has_next_def)

lemma ceil_div_step:
  fixes len csv :: int
  assumes "1 \<le> csv" and "1 \<le> len"
  shows "(len + csv - 1) div csv = 1 + (len - min csv len + csv - 1) div csv"
proof (cases "csv \<le> len")
  case True
  have "(len + csv - 1) div csv = ((len - 1) + 1 * csv) div csv" by (simp add: algebra_simps)
  also have "\<dots> = (len - 1) div csv + 1" using assms by (subst div_mult_self1) auto
  finally show ?thesis using True by (simp add: min_def)
next
  case False
  then have "len < csv" by simp
  have "(len + csv - 1) div csv = ((len - 1) + 1 * csv) div csv" by (simp add: algebra_simps)
  also have "\<dots> = (len - 1) div csv + 1" using assms by (subst div_mult_self1) auto
  also have "(len - 1) div csv = 0" using assms \<open>len < csv\<close> by simp
  finally show ?thesis using \<open>len < csv\<close> assms by (simp add: min_def)
qed

lemma triplet_drain_ok:
  assumes csv: "1 \<le> chunk_size_values opts"
  shows "triplet_ranges_valid f \<Longrightarrow>
    \<exists>cs fe strs. triplet_drain opts f = Some (cs, fe) \<and> \<not> triplet_has_next fe \<and>
      int (length cs) =
        (int (length (row_iter f)) + chunk_size_values opts - 1) div chunk_size_values opts \<and>
      map (triplet_chunk_call its cts vts) cs = map Some strs \<and>
      concat strs = concat (triplet_lines its cts vts (row_iter f) (col_iter f) (val_iter f)) \<and>
      (\<forall>s \<in> set strs. s \<noteq> [] \<longrightarrow> last s = CHR 0x0A)"
proof (induction "length (row_iter f)" arbitrary: f rule: less_induct)
  case less
  show ?case
  proof (cases "triplet_has_next f")
    case False
    then have "triplet_drain opts f = Some ([], f)"
      by (subst triplet_drain.simps) simp
    moreover from False have "row_iter f = []" by (simp add: triplet_has_next_def)
    ultimately show ?thesis using False csv by simp
  next
    case True
    define n where "n = nat (min (chunk_size_values opts) (int (length (row_iter f))))"
    define c :: "('a word, 'b, 'c) triplet_chunk" where
      "c = \<lparr>chunk_row_iter = take n (row_iter f), chunk_col_iter = col_iter f,
             chunk_val_iter = take n (val_iter f)\<rparr>"
    define f' :: "('a word, 'b, 'c) triplet_formatter" where
      "f' = \<lparr>row_iter = drop n (row_iter f), col_iter = drop n (col_iter f),
              val_iter = drop n (val_iter f)\<rparr>"
    from triplet_next_chunk_valid [OF less.prems True csv]
    have nc: "triplet_next_chunk opts f = Some (c, f')" and n: "0 < n" "n \<le> length (row_iter f)"
      by (simp_all add: n_def c_def f'_def)
    have valid': "triplet_ranges_valid f'" using less.prems by (auto simp: triplet_ranges_valid_def f'_def)
    have shorter: "length (row_iter f') < length (row_iter f)"
      using n True by (simp add: f'_def triplet_has_next_def)
    from less.hyps [OF shorter valid'] obtain cs fe strs where
      d: "triplet_drain opts f' = Some (cs, fe)" and e: "\<not> triplet_has_next fe" and
      l: "int (length cs) =
            (int (length (row_iter f')) + chunk_size_values opts - 1) div chunk_size_values opts" and
      m: "map (triplet_chunk_call its cts vts) cs = map Some strs" and
      b: "concat strs = concat (triplet_lines its cts vts (row_iter f') (col_iter f') (val_iter f'))" and
      nl: "\<forall>s \<in> set strs. s \<noteq> [] \<longrightarrow> last s = CHR 0x0A"
      by blast
    let ?s = "concat (triplet_lines its cts vts (take n (row_iter f)) (col_iter f) (take n (val_iter f)))"
    have call: "triplet_chunk_call its cts vts c = Some ?s"
      using less.prems
      by (simp add: triplet_chunk_call_def c_def triplet_chunk_loop_lines triplet_ranges_valid_def)
    have drain: "triplet_drain opts f = Some (c # cs, fe)"
      using True nc d by (subst triplet_drain.simps) simp
    have len: "int (length (row_iter f')) = int (length (row_iter f)) -
        min (chunk_size_values opts) (int (length (row_iter f)))"
      using n by (simp add: f'_def n_def)
    have "1 \<le> int (length (row_iter f))"
      using True by (cases "row_iter f") (simp_all add: triplet_has_next_def)
    from ceil_div_step [OF csv this]
    have count: "int (length (c # cs)) =
        (int (length (row_iter f)) + chunk_size_values opts - 1) div chunk_size_values opts"
      using l len by simp
    have body: "concat (?s # strs) =
        concat (triplet_lines its cts vts (row_iter f) (col_iter f) (val_iter f))"
      using less.prems b triplet_lines_append [of "col_iter f" "row_iter f" "val_iter f" its cts vts n]
      by (simp add: f'_def triplet_ranges_valid_def)
    have "?s \<noteq> [] \<longrightarrow> last ?s = CHR 0x0A"
      by (rule impI) (rule triplet_lines_last)
    with nl have nl': "\<forall>s \<in> set (?s # strs). s \<noteq> [] \<longrightarrow> last s = CHR 0x0A"
      by (simp del: concat_eq_Nil_conv)
    have "map (triplet_chunk_call its cts vts) (c # cs) = map Some (?s # strs)"
      using call m by simp
    with drain e count body nl' show ?thesis by blast
  qed
qed


lemma ceiling_div_int:
  fixes a b :: int
  assumes "0 < b"
  shows "\<lceil>real_of_int a / real_of_int b\<rceil> = (a + b - 1) div b"
proof -
  define z where "z = (a + b - 1) div b"
  define m where "m = (a + b - 1) mod b"
  have eq: "a + b - 1 = z * b + m" by (simp add: z_def m_def)
  have m: "0 \<le> m" "m < b" using assms by (simp_all add: m_def)
  have up: "a \<le> z * b" using eq m by linarith
  have lo: "(z - 1) * b < a" using eq m by (simp add: algebra_simps) 
  have "real_of_int a \<le> real_of_int (z * b)" using up by (simp only: of_int_le_iff)
  then have 1: "real_of_int a / real_of_int b \<le> real_of_int z"
    using assms by (simp add: pos_divide_le_eq)
  have "real_of_int ((z - 1) * b) < real_of_int a" using lo by (simp only: of_int_less_iff)
  then have 2: "real_of_int z - 1 < real_of_int a / real_of_int b"
    using assms by (simp add: pos_less_divide_eq)
  from 1 2 show ?thesis unfolding z_def [symmetric] by (simp add: ceiling_eq_iff)
qed


subsection \<open>The claims about the triplet formatter\<close>

text \<open>
  C7. Constructing a \<^verbatim>\<open>triplet_formatter\<close> raises \<^verbatim>\<open>invalid_argument\<close> if and only if the row
  and column ranges differ in length, or the value range is non-empty and differs in
  length from the row range. With an empty value range and equal row and column lengths
  the construction succeeds.
\<close>

theorem triplet_formatter_invalid_argument_iff:
  "((new_triplet_formatter rows cols vals = Inl invalid_argument) =
      (length rows \<noteq> length cols \<or> (vals \<noteq> [] \<and> length vals \<noteq> length rows))) \<and>
   (length rows = length cols \<longrightarrow>
      new_triplet_formatter rows cols ([] :: 'v list) =
        Inr \<lparr>row_iter = rows, col_iter = cols, val_iter = []\<rparr>)"
  by (auto simp: new_triplet_formatter_def)

theorem triplet_formatter_invalid_argument_iff_witness:
  "new_triplet_formatter [0, 1 :: 64 word] [2 :: 64 word, 3] [5 :: int] =
     Inl invalid_argument \<and>
   new_triplet_formatter [0, 1 :: 64 word] [2 :: 64 word] [5 :: int, 6] =
     Inl invalid_argument \<and>
   new_triplet_formatter [0, 1 :: 64 word] [2 :: 64 word, 3] ([] :: int list) =
     Inr \<lparr>row_iter = [0, 1], col_iter = [2, 3], val_iter = []\<rparr>"
  using triplet_formatter_invalid_argument_iff
          [of "[0, 1 :: 64 word]" "[2 :: 64 word, 3]" "[5 :: int]"]
        triplet_formatter_invalid_argument_iff
          [of "[0, 1 :: 64 word]" "[2 :: 64 word]" "[5 :: int, 6]"]
        triplet_formatter_invalid_argument_iff
          [of "[0, 1 :: 64 word]" "[2 :: 64 word, 3]" "[] :: int list"]
  by simp


text \<open>
  C4 (counterexample). The claim: for every valid triplet input the chunks, concatenated,
  are the lines \<^verbatim>\<open>row+1 col+1\<close>. The code adds 1 in the index type: for the single record with
  the largest \<^verbatim>\<open>int64_t\<close> row index the chunk reads \<^verbatim>\<open>-9223372036854775808 1\<close>, where the
  claim's line is \<^verbatim>\<open>9223372036854775808 1\<close>; with \<^verbatim>\<open>int32_t\<close> indices, the last row of a
  matrix of 2147483648 rows is written as \<^verbatim>\<open>-2147483648\<close>.
\<close>

theorem triplet_chunks_largest_index_counterexample:
  "triplet_drain \<lparr>chunk_size_values = 1\<rparr>
     \<lparr>row_iter = [9223372036854775807 :: 64 word], col_iter = [0 :: 64 word],
      val_iter = [] :: int list\<rparr> =
     Some ([\<lparr>chunk_row_iter = [9223372036854775807], chunk_col_iter = [0],
             chunk_val_iter = []\<rparr>],
           \<lparr>row_iter = [], col_iter = [], val_iter = []\<rparr>) \<and>
   triplet_chunk_call int_to_string (column_to_str_index int_to_string) int_to_string
     \<lparr>chunk_row_iter = [9223372036854775807 :: 64 word], chunk_col_iter = [0 :: 64 word],
      chunk_val_iter = [] :: int list\<rparr> =
     Some ''-9223372036854775808 1\<newline>'' \<and>
   triplet_body_spec int_to_string int_to_string
     [9223372036854775807 :: 64 word] [0 :: 64 word] ([] :: int list) =
     ''9223372036854775808 1\<newline>'' \<and>
   triplet_chunk_call int_to_string (column_to_str_index int_to_string) int_to_string
     \<lparr>chunk_row_iter = [2147483647 :: 32 word], chunk_col_iter = [0 :: 32 word],
      chunk_val_iter = [] :: int list\<rparr> =
     Some ''-2147483648 1\<newline>'' \<and>
   triplet_body_spec int_to_string int_to_string
     [2147483647 :: 32 word] [0 :: 32 word] ([] :: int list) =
     ''2147483648 1\<newline>''"
proof (intro conjI)
  show "triplet_drain \<lparr>chunk_size_values = 1\<rparr>
     \<lparr>row_iter = [9223372036854775807 :: 64 word], col_iter = [0 :: 64 word],
      val_iter = [] :: int list\<rparr> =
     Some ([\<lparr>chunk_row_iter = [9223372036854775807], chunk_col_iter = [0],
             chunk_val_iter = []\<rparr>],
           \<lparr>row_iter = [], col_iter = [], val_iter = []\<rparr>)"
    by (simp add: triplet_drain.simps triplet_has_next_def triplet_next_chunk_def)
  have neg: "sint (9223372036854775807 + 1 :: 64 word) = - 9223372036854775808"
    by simp
  have one: "sint (0 + 1 :: 64 word) = 1"
    by simp
  show "triplet_chunk_call int_to_string (column_to_str_index int_to_string) int_to_string
     \<lparr>chunk_row_iter = [9223372036854775807 :: 64 word], chunk_col_iter = [0 :: 64 word],
      chunk_val_iter = [] :: int list\<rparr> =
     Some ''-9223372036854775808 1\<newline>''"
    by (simp add: triplet_chunk_call_def column_to_str_index_def neg one int_to_string_def
        nat_to_string.simps kSpace_def kNewline_def del: add_0_left add_0)
  show "triplet_body_spec int_to_string int_to_string
     [9223372036854775807 :: 64 word] [0 :: 64 word] ([] :: int list) =
     ''9223372036854775808 1\<newline>''"
    by (simp add: triplet_body_spec_def int_to_string_def nat_to_string.simps)
  have neg32: "sint (2147483647 + 1 :: 32 word) = - 2147483648"
    by simp
  have one32: "sint (0 + 1 :: 32 word) = 1"
    by simp
  show "triplet_chunk_call int_to_string (column_to_str_index int_to_string) int_to_string
     \<lparr>chunk_row_iter = [2147483647 :: 32 word], chunk_col_iter = [0 :: 32 word],
      chunk_val_iter = [] :: int list\<rparr> =
     Some ''-2147483648 1\<newline>''"
    by (simp add: triplet_chunk_call_def column_to_str_index_def neg32 one32 int_to_string_def
        nat_to_string.simps kSpace_def kNewline_def del: add_0_left add_0)
  show "triplet_body_spec int_to_string int_to_string
     [2147483647 :: 32 word] [0 :: 32 word] ([] :: int list) =
     ''2147483648 1\<newline>''"
    by (simp add: triplet_body_spec_def int_to_string_def nat_to_string.simps)
qed

text \<open>
  C4 (amended). For every valid triplet input (row and column ranges of equal length,
  value range empty or of that length) whose row and column indices are all below the
  largest value of their index type, and every \<^verbatim>\<open>chunk_size_values\<close> of at least 1, the
  strings that the chunks of a \<^verbatim>\<open>triplet_formatter\<close> (with the default
  \<^verbatim>\<open>COLUMN_IS_VALUE = false\<close>) produce, concatenated in the order \<^verbatim>\<open>next_chunk\<close> returns them,
  are the lines \<^verbatim>\<open>row+1 col+1\<close> (no values) or \<^verbatim>\<open>row+1 col+1 value\<close> of the records in input
  order, each ended by a newline. The right-hand side does not mention
  \<^verbatim>\<open>chunk_size_values\<close>, and every non-empty chunk ends with a newline.
\<close>

theorem triplet_chunks_concat:
  fixes rows :: "'w::len word list" and cols :: "'x::len word list"
  assumes "length cols = length rows" and "vals = [] \<or> length vals = length rows"
    and "\<forall>r \<in> set rows. sint r + 1 < 2 ^ (LENGTH('w) - 1)"
    and "\<forall>c \<in> set cols. sint c + 1 < 2 ^ (LENGTH('x) - 1)"
    and "1 \<le> chunk_size_values opts"
  shows "\<exists>f cs fe strs.
     new_triplet_formatter rows cols vals = Inr f \<and>
     triplet_drain opts f = Some (cs, fe) \<and>
     map (triplet_chunk_call its (column_to_str_index its) vts) cs = map Some strs \<and>
     concat strs = triplet_body_spec its vts rows cols vals \<and>
     (\<forall>s \<in> set strs. s \<noteq> [] \<longrightarrow> last s = CHR 0x0A)"
proof -
  let ?f = "\<lparr>row_iter = rows, col_iter = cols, val_iter = vals\<rparr>"
  have new: "new_triplet_formatter rows cols vals = Inr ?f"
    using assms by (auto simp: new_triplet_formatter_def)
  have valid: "triplet_ranges_valid ?f"
    using assms by (simp add: triplet_ranges_valid_def)
  from triplet_drain_ok [OF assms(5) valid, of its "column_to_str_index its" vts]
  obtain cs fe strs where
    "triplet_drain opts ?f = Some (cs, fe)"
    "map (triplet_chunk_call its (column_to_str_index its) vts) cs = map Some strs"
    "concat strs = concat (triplet_lines its (column_to_str_index its) vts rows cols vals)"
    "\<forall>s \<in> set strs. s \<noteq> [] \<longrightarrow> last s = CHR 0x0A"
    by auto
  with new triplet_lines_spec [OF assms(1,2,3,4), of its vts] show ?thesis
    by auto
qed

theorem triplet_chunks_concat_witness:
  "\<exists>f cs fe strs.
     new_triplet_formatter [0, 1, 2 :: 32 word] [0, 1, 2 :: 64 word] [5, 6, 7 :: int] = Inr f \<and>
     triplet_drain \<lparr>chunk_size_values = 2\<rparr> f = Some (cs, fe) \<and>
     map (triplet_chunk_call int_to_string (column_to_str_index int_to_string)
            int_to_string) cs = map Some strs \<and>
     concat strs = ''1 1 5\<newline>2 2 6\<newline>3 3 7\<newline>'' \<and>
     (\<forall>s \<in> set strs. s \<noteq> [] \<longrightarrow> last s = CHR 0x0A)"
proof -
  have h: "length [0, 1, 2 :: 64 word] = length [0, 1, 2 :: 32 word]"
    "[5, 6, 7 :: int] = [] \<or> length [5, 6, 7 :: int] = length [0, 1, 2 :: 32 word]"
    "\<forall>r \<in> set [0, 1, 2 :: 32 word]. sint r + 1 < 2 ^ (LENGTH(32) - 1)"
    "\<forall>c \<in> set [0, 1, 2 :: 64 word]. sint c + 1 < 2 ^ (LENGTH(64) - 1)"
    "1 \<le> chunk_size_values \<lparr>chunk_size_values = 2\<rparr>"
    by simp_all
  have body: "triplet_body_spec int_to_string int_to_string
      [0, 1, 2 :: 32 word] [0, 1, 2 :: 64 word] [5, 6, 7 :: int] =
      ''1 1 5\<newline>2 2 6\<newline>3 3 7\<newline>''"
    by (simp add: triplet_body_spec_def int_to_string_def nat_to_string.simps)
  from triplet_chunks_concat [OF h, of int_to_string int_to_string] show ?thesis
    by (simp only: body)
qed

text \<open>
  C10. For every valid \<^verbatim>\<open>triplet_formatter\<close> over \<open>n\<close> records and every
  \<^verbatim>\<open>chunk_size_values\<close> of at least 1, the loop \<^verbatim>\<open>while has_next(): next_chunk(options)\<close>
  returns after exactly \<open>\<lceil>n / chunk_size_values\<rceil>\<close> calls of \<^verbatim>\<open>next_chunk\<close>, and
  \<^verbatim>\<open>has_next()\<close> is false afterwards. In every state of the loop (the iterator invariant
  holds and \<^verbatim>\<open>has_next()\<close> is true) a call advances the row iterator by the minimum of
  \<^verbatim>\<open>chunk_size_values\<close> and the number of records left, which is positive.
\<close>

theorem triplet_drain_terminates:
  fixes rows :: "'w::len word list" and cols :: "'c list" and vals :: "'v list"
  assumes "length cols = length rows" and "vals = [] \<or> length vals = length rows"
    and "1 \<le> chunk_size_values opts"
  shows "\<exists>f cs fe.
     new_triplet_formatter rows cols vals = Inr f \<and> triplet_ranges_valid f \<and>
     triplet_drain opts f = Some (cs, fe) \<and>
     int (length cs) = \<lceil>real (length rows) / real_of_int (chunk_size_values opts)\<rceil> \<and>
     \<not> triplet_has_next fe \<and>
     (\<forall>g :: ('w word, 'c, 'v) triplet_formatter. triplet_ranges_valid g \<and> triplet_has_next g \<longrightarrow>
        (\<exists>c g'. triplet_next_chunk opts g = Some (c, g') \<and> triplet_ranges_valid g' \<and>
           0 < min (chunk_size_values opts) (int (length (row_iter g))) \<and>
           row_iter g' =
             drop (nat (min (chunk_size_values opts) (int (length (row_iter g))))) (row_iter g)))"
proof -
  let ?f = "\<lparr>row_iter = rows, col_iter = cols, val_iter = vals\<rparr>"
  have new: "new_triplet_formatter rows cols vals = Inr ?f"
    using assms by (auto simp: new_triplet_formatter_def)
  have valid: "triplet_ranges_valid ?f"
    using assms by (simp add: triplet_ranges_valid_def)
  from triplet_drain_ok [OF assms(3) valid, of "\<lambda>_. []" "\<lambda>_. []" "\<lambda>_. []"]
  obtain cs fe where d: "triplet_drain opts ?f = Some (cs, fe)" "\<not> triplet_has_next fe"
    "int (length cs) =
       (int (length rows) + chunk_size_values opts - 1) div chunk_size_values opts"
    by auto
  have count: "int (length cs) = \<lceil>real (length rows) / real_of_int (chunk_size_values opts)\<rceil>"
    using d(3) assms(3) ceiling_div_int [of "chunk_size_values opts" "int (length rows)"]
    by simp
  have step: "\<exists>c g'. triplet_next_chunk opts g = Some (c, g') \<and> triplet_ranges_valid g' \<and>
           0 < min (chunk_size_values opts) (int (length (row_iter g))) \<and>
           row_iter g' =
             drop (nat (min (chunk_size_values opts) (int (length (row_iter g))))) (row_iter g)"
    if g: "triplet_ranges_valid g" "triplet_has_next g" for g :: "('w word, 'c, 'v) triplet_formatter"
    using triplet_next_chunk_valid [OF g assms(3)] g
    by (auto simp: triplet_ranges_valid_def)
  from new valid d(1,2) count step show ?thesis by blast
qed

theorem triplet_drain_terminates_witness:
  "\<exists>f cs fe.
     new_triplet_formatter [0, 1, 2 :: 64 word] [0, 1, 2 :: 64 word] [5, 6, 7 :: int] = Inr f \<and>
     triplet_drain \<lparr>chunk_size_values = 2\<rparr> f =
       Some (cs, fe :: (64 word, 64 word, int) triplet_formatter) \<and>
     length cs = 2 \<and> \<not> triplet_has_next fe \<and>
     (\<exists>c. triplet_next_chunk \<lparr>chunk_size_values = 2\<rparr> f =
            Some (c, \<lparr>row_iter = [2], col_iter = [2], val_iter = [7]\<rparr>))"
proof -
  have h: "length [0, 1, 2 :: 64 word] = length [0, 1, 2 :: 64 word]"
    "[5, 6, 7 :: int] = [] \<or> length [5, 6, 7 :: int] = length [0, 1, 2 :: 64 word]"
    "1 \<le> chunk_size_values \<lparr>chunk_size_values = 2\<rparr>"
    by simp_all
  from triplet_drain_terminates [OF h] show ?thesis
    by (auto simp: new_triplet_formatter_def triplet_next_chunk_def Let_def)
qed

section \<open>Properties of the dense formatters\<close>

lemma array_chunk_loop_eq:
  assumes "0 \<le> row" and "row \<le> af_nrows ch"
    and "\<forall>r. 0 \<le> r \<and> r < af_nrows ch \<longrightarrow>
           0 \<le> array_offset ch r \<and> array_offset ch r < int (length (af_values ch))"
  shows "array_chunk_loop vts ch c row =
     Some (c @ concat (map (\<lambda>r. vts (af_values ch ! nat (array_offset ch (int r))) @ kNewline)
                           [nat row ..< nat (af_nrows ch)]))"
  using assms(1,2)
proof (induction "nat (af_nrows ch - row)" arbitrary: row c)
  case 0
  then have "row = af_nrows ch" by simp
  then show ?case by (subst array_chunk_loop.simps) simp
next
  case (Suc n)
  then have lt: "row < af_nrows ch" by simp
  with Suc.prems assms(3) have rng: "0 \<le> array_offset ch row"
    "array_offset ch row < int (length (af_values ch))"
    by simp_all
  have n: "n = nat (af_nrows ch - (row + 1))" using Suc.hyps(2) by simp
  have upt: "[nat row ..< nat (af_nrows ch)] = nat row # [nat (row + 1) ..< nat (af_nrows ch)]"
    using lt Suc.prems by (simp add: upt_conv_Cons nat_add_distrib)
  have "array_chunk_loop vts ch c row =
      array_chunk_loop vts ch (c @ vts (af_values ch ! nat (array_offset ch row)) @ kNewline)
        (row + 1)"
    using lt rng by (subst array_chunk_loop.simps) (simp add: array_offset_def Let_def)
  also have "\<dots> = Some ((c @ vts (af_values ch ! nat (array_offset ch row)) @ kNewline) @
      concat (map (\<lambda>r. vts (af_values ch ! nat (array_offset ch (int r))) @ kNewline)
                  [nat (row + 1) ..< nat (af_nrows ch)]))"
    using Suc.prems lt by (intro Suc.hyps(1) [OF n]) simp_all
  finally show ?case using Suc.prems by (simp add: upt)
qed

lemma array_offset_in_range:
  assumes "0 \<le> r" "r < af_nrows ch" "0 \<le> af_cur_col ch" "af_cur_col ch < af_ncols ch"
    and "length (af_values ch) = nat (af_nrows ch) * nat (af_ncols ch)"
  shows "0 \<le> array_offset ch r \<and> array_offset ch r < int (length (af_values ch))"
proof -
  have len: "int (length (af_values ch)) = af_nrows ch * af_ncols ch"
    using assms by (simp add: nat_mult_distrib)
  have a: "r * af_ncols ch + af_cur_col ch < af_nrows ch * af_ncols ch"
  proof -
    have "r + 1 \<le> af_nrows ch" using assms by simp
    then have "(r + 1) * af_ncols ch \<le> af_nrows ch * af_ncols ch"
      using assms by (intro mult_right_mono) simp_all
    then show ?thesis using assms by (simp add: algebra_simps)
  qed
  have b: "af_cur_col ch * af_nrows ch + r < af_nrows ch * af_ncols ch"
  proof -
    have "af_cur_col ch + 1 \<le> af_ncols ch" using assms by simp
    then have "(af_cur_col ch + 1) * af_nrows ch \<le> af_ncols ch * af_nrows ch"
      using assms by (intro mult_right_mono) simp_all
    then show ?thesis using assms by (simp add: algebra_simps)
  qed
  show ?thesis using a b assms len by (simp add: array_offset_def)
qed

lemma array_chunk_call_column:
  assumes "0 \<le> af_nrows ch" "0 \<le> af_cur_col ch" "af_cur_col ch < af_ncols ch"
    and "length (af_values ch) = nat (af_nrows ch) * nat (af_ncols ch)"
  shows "array_chunk_call vts ch =
     Some (value_lines vts
       (map (\<lambda>row. matrix_element (af_values ch) (af_order ch) (nat (af_nrows ch))
                      (nat (af_ncols ch)) row (nat (af_cur_col ch)))
            [0 ..< nat (af_nrows ch)]))"
proof -
  have rng: "\<forall>r. 0 \<le> r \<and> r < af_nrows ch \<longrightarrow>
           0 \<le> array_offset ch r \<and> array_offset ch r < int (length (af_values ch))"
    using array_offset_in_range [OF _ _ assms(2,3,4)] by blast
  have off: "nat (array_offset ch (int r)) =
      (if af_order ch = row_major then r * nat (af_ncols ch) + nat (af_cur_col ch)
       else nat (af_cur_col ch) * nat (af_nrows ch) + r)" for r
    using assms by (simp add: array_offset_def nat_add_distrib nat_mult_distrib)
  show ?thesis
    unfolding array_chunk_call_def
    by (subst array_chunk_loop_eq [OF _ assms(1) rng])
       (simp_all add: value_lines_def matrix_element_def off kNewline_def comp_def cong: if_cong)
qed

lemma array_drain_eq:
  assumes "0 \<le> af_cur_col f" and "af_cur_col f \<le> af_ncols f"
  shows "array_drain opts f =
     Some (map (\<lambda>c. f\<lparr>af_cur_col := int c\<rparr>) [nat (af_cur_col f) ..< nat (af_ncols f)],
           f\<lparr>af_cur_col := af_ncols f\<rparr>)"
  using assms
proof (induction "nat (af_ncols f - af_cur_col f)" arbitrary: f)
  case 0
  then have "af_cur_col f = af_ncols f" by simp
  then show ?case by (subst array_drain.simps) (simp add: array_has_next_def)
next
  case (Suc n)
  then have lt: "af_cur_col f < af_ncols f" by simp
  let ?f' = "f\<lparr>af_cur_col := af_cur_col f + 1\<rparr>"
  have n: "n = nat (af_ncols ?f' - af_cur_col ?f')" using Suc.hyps(2) by simp
  have IH: "array_drain opts ?f' =
     Some (map (\<lambda>c. ?f'\<lparr>af_cur_col := int c\<rparr>) [nat (af_cur_col ?f') ..< nat (af_ncols ?f')],
           ?f'\<lparr>af_cur_col := af_ncols ?f'\<rparr>)"
    using Suc.prems lt by (intro Suc.hyps(1) [OF n]) simp_all
  have upt: "[nat (af_cur_col f) ..< nat (af_ncols f)] =
      nat (af_cur_col f) # [nat (af_cur_col f + 1) ..< nat (af_ncols f)]"
    using lt Suc.prems by (simp add: upt_conv_Cons nat_add_distrib)
  show ?case
    using lt Suc.prems IH
    by (subst array_drain.simps) (simp add: array_has_next_def array_next_chunk_def upt)
qed

lemma value_lines_concat:
  "value_lines vts (concat xss) = concat (map (value_lines vts) xss)"
  by (induction xss) (simp_all add: value_lines_def)

lemma array_formatter_column_major:
  assumes "0 \<le> nr" and "0 \<le> nc" and "length vs = nat nr * nat nc"
  shows "\<exists>cs fe strs.
     array_drain opts (new_array_formatter vs ord nr nc) = Some (cs, fe) \<and>
     \<not> array_has_next fe \<and> length cs = nat nc \<and>
     map (array_chunk_call vts) cs = map Some strs \<and>
     concat strs = value_lines vts (column_major_values vs ord (nat nr) (nat nc))"
proof -
  let ?f = "new_array_formatter vs ord nr nc"
  let ?cs = "map (\<lambda>c. ?f\<lparr>af_cur_col := int c\<rparr>) [0 ..< nat nc]"
  let ?col = "\<lambda>c. map (\<lambda>row. matrix_element vs ord (nat nr) (nat nc) row c)
                       [0 ..< nat nr]"
  have drain: "array_drain opts ?f = Some (?cs, ?f\<lparr>af_cur_col := nc\<rparr>)"
    using array_drain_eq [of ?f opts] assms by (simp add: new_array_formatter_def)
  have call: "array_chunk_call vts (?f\<lparr>af_cur_col := int c\<rparr>) = Some (value_lines vts (?col c))"
    if "c < nat nc" for c
    using that assms
    by (subst array_chunk_call_column) (simp_all add: new_array_formatter_def)
  have calls: "map (array_chunk_call vts) ?cs = map Some (map (\<lambda>c. value_lines vts (?col c)) [0 ..< nat nc])"
    using call by simp
  have cat: "concat (map (\<lambda>c. value_lines vts (?col c)) [0 ..< nat nc]) =
      value_lines vts (column_major_values vs ord (nat nr) (nat nc))"
    by (simp add: column_major_values_def value_lines_concat comp_def)
  have fin: "\<not> array_has_next (?f\<lparr>af_cur_col := nc\<rparr>)"
    by (simp add: array_has_next_def new_array_formatter_def)
  have len: "length ?cs = nat nc" by simp
  from drain fin len calls cat show ?thesis by blast
qed

lemma row_major_chunk_loop_eq:
  assumes "0 \<le> i" and "i \<le> rm_ncols ch" and "0 \<le> rm_cur_row ch"
    and "(rm_cur_row ch + 1) * rm_ncols ch \<le> int (length (rm_values ch))"
  shows "row_major_chunk_loop vts ch c i =
     Some (c @ concat (map (\<lambda>k. vts (rm_values ch ! (nat (rm_cur_row ch) * nat (rm_ncols ch) + k)) @
                                   kNewline)
                           [nat i ..< nat (rm_ncols ch)]))"
  using assms(1,2)
proof (induction "nat (rm_ncols ch - i)" arbitrary: i c)
  case 0
  then have "i = rm_ncols ch" by simp
  then show ?case by (subst row_major_chunk_loop.simps) simp
next
  case (Suc n)
  then have lt: "i < rm_ncols ch" by simp
  have "rm_cur_row ch * rm_ncols ch + i < (rm_cur_row ch + 1) * rm_ncols ch"
    using lt by (simp add: algebra_simps)
  with assms(4) have hi: "rm_cur_row ch * rm_ncols ch + i < int (length (rm_values ch))"
    by simp
  have lo: "0 \<le> rm_cur_row ch * rm_ncols ch + i"
    using assms(3) Suc.prems lt by simp
  have k: "nat (rm_cur_row ch * rm_ncols ch + i) = nat (rm_cur_row ch) * nat (rm_ncols ch) + nat i"
    using assms(3) Suc.prems lt by (simp add: nat_add_distrib nat_mult_distrib)
  have n: "n = nat (rm_ncols ch - (i + 1))" using Suc.hyps(2) by simp
  have upt: "[nat i ..< nat (rm_ncols ch)] = nat i # [nat (i + 1) ..< nat (rm_ncols ch)]"
    using lt Suc.prems by (simp add: upt_conv_Cons nat_add_distrib)
  have "row_major_chunk_loop vts ch c i =
      row_major_chunk_loop vts ch
        (c @ vts (rm_values ch ! (nat (rm_cur_row ch) * nat (rm_ncols ch) + nat i)) @ kNewline)
        (i + 1)"
    using lt lo hi by (subst row_major_chunk_loop.simps) (simp add: Let_def k)
  also have "\<dots> = Some ((c @ vts (rm_values ch ! (nat (rm_cur_row ch) * nat (rm_ncols ch) + nat i)) @
        kNewline) @
      concat (map (\<lambda>k. vts (rm_values ch ! (nat (rm_cur_row ch) * nat (rm_ncols ch) + k)) @ kNewline)
                  [nat (i + 1) ..< nat (rm_ncols ch)]))"
    using Suc.prems lt by (intro Suc.hyps(1) [OF n]) simp_all
  finally show ?case by (simp add: upt)
qed

lemma row_major_chunk_call_row:
  assumes "0 \<le> rm_ncols ch" and "0 \<le> rm_cur_row ch" and "rm_cur_row ch < rm_nrows ch"
    and "rm_nrows ch * rm_ncols ch \<le> int (length (rm_values ch))"
  shows "row_major_chunk_call vts ch =
     Some (value_lines vts
       (map (\<lambda>col. matrix_element (rm_values ch) row_major (nat (rm_nrows ch))
                      (nat (rm_ncols ch)) (nat (rm_cur_row ch)) col)
            [0 ..< nat (rm_ncols ch)]))"
proof -
  have "rm_cur_row ch + 1 \<le> rm_nrows ch" using assms by simp
  then have "(rm_cur_row ch + 1) * rm_ncols ch \<le> rm_nrows ch * rm_ncols ch"
    using assms by (intro mult_right_mono) simp_all
  with assms(4) have rng: "(rm_cur_row ch + 1) * rm_ncols ch \<le> int (length (rm_values ch))"
    by simp
  show ?thesis
    unfolding row_major_chunk_call_def
    by (subst row_major_chunk_loop_eq [OF _ assms(1,2) rng])
       (simp_all add: value_lines_def matrix_element_def kNewline_def comp_def)
qed

lemma row_major_drain_eq:
  assumes "0 \<le> rm_cur_row f" and "rm_cur_row f \<le> rm_nrows f"
  shows "row_major_drain opts f =
     Some (map (\<lambda>r. f\<lparr>rm_cur_row := int r\<rparr>) [nat (rm_cur_row f) ..< nat (rm_nrows f)],
           f\<lparr>rm_cur_row := rm_nrows f\<rparr>)"
  using assms
proof (induction "nat (rm_nrows f - rm_cur_row f)" arbitrary: f)
  case 0
  then have "rm_cur_row f = rm_nrows f" by simp
  then show ?case by (subst row_major_drain.simps) (simp add: row_major_has_next_def)
next
  case (Suc n)
  then have lt: "rm_cur_row f < rm_nrows f" by simp
  let ?f' = "f\<lparr>rm_cur_row := rm_cur_row f + 1\<rparr>"
  have n: "n = nat (rm_nrows ?f' - rm_cur_row ?f')" using Suc.hyps(2) by simp
  have IH: "row_major_drain opts ?f' =
     Some (map (\<lambda>r. ?f'\<lparr>rm_cur_row := int r\<rparr>) [nat (rm_cur_row ?f') ..< nat (rm_nrows ?f')],
           ?f'\<lparr>rm_cur_row := rm_nrows ?f'\<rparr>)"
    using Suc.prems lt by (intro Suc.hyps(1) [OF n]) simp_all
  have upt: "[nat (rm_cur_row f) ..< nat (rm_nrows f)] =
      nat (rm_cur_row f) # [nat (rm_cur_row f + 1) ..< nat (rm_nrows f)]"
    using lt Suc.prems by (simp add: upt_conv_Cons nat_add_distrib)
  show ?case
    using lt Suc.prems IH
    by (subst row_major_drain.simps)
       (simp add: row_major_has_next_def row_major_next_chunk_def upt)
qed

lemma row_major_array_formatter_row_major:
  assumes "0 < nr" and "nr < 2 ^ 63"
  shows "\<exists>f cs fe strs.
     new_row_major_array_formatter vs nr = Some f \<and>
     rm_ncols f = int (length vs) div nr \<and>
     row_major_drain opts f = Some (cs, fe) \<and>
     \<not> row_major_has_next fe \<and> length cs = nat nr \<and>
     map (row_major_chunk_call vts) cs = map Some strs \<and>
     concat strs = value_lines vts (row_major_values vs row_major (nat nr) (length vs div nat nr))"
proof -
  define nc where "nc = int (length vs) div nr"
  have m: "nr mod 2 ^ 64 = nr" using assms by simp
  let ?f = "\<lparr>rm_values = vs, rm_nrows = nr, rm_ncols = nc, rm_cur_row = 0\<rparr>"
  have new: "new_row_major_array_formatter vs nr = Some ?f"
    using assms by (simp add: new_row_major_array_formatter_def m nc_def)
  have nc0: "0 \<le> nc" using assms by (simp add: nc_def pos_imp_zdiv_nonneg_iff)
  have ncn: "nat nc = length vs div nat nr"
    using assms by (simp add: nc_def nat_div_distrib)
  have fits: "nr * nc \<le> int (length vs)"
    unfolding nc_def
    using mult_div_mod_eq [of nr "int (length vs)"] pos_mod_sign [of nr "int (length vs)"] assms
    by linarith
  let ?cs = "map (\<lambda>r. ?f\<lparr>rm_cur_row := int r\<rparr>) [0 ..< nat nr]"
  let ?row = "\<lambda>r. map (\<lambda>col. matrix_element vs row_major (nat nr) (nat nc) r col) [0 ..< nat nc]"
  have drain: "row_major_drain opts ?f = Some (?cs, ?f\<lparr>rm_cur_row := nr\<rparr>)"
    using row_major_drain_eq [of ?f opts] assms by simp
  have call: "row_major_chunk_call vts (?f\<lparr>rm_cur_row := int r\<rparr>) = Some (value_lines vts (?row r))"
    if "r < nat nr" for r
    using that assms nc0 fits by (subst row_major_chunk_call_row) simp_all
  have calls: "map (row_major_chunk_call vts) ?cs =
      map Some (map (\<lambda>r. value_lines vts (?row r)) [0 ..< nat nr])"
    using call by simp
  have cat: "concat (map (\<lambda>r. value_lines vts (?row r)) [0 ..< nat nr]) =
      value_lines vts (row_major_values vs row_major (nat nr) (length vs div nat nr))"
    by (simp add: row_major_values_def value_lines_concat comp_def ncn)
  have fin: "\<not> row_major_has_next (?f\<lparr>rm_cur_row := nr\<rparr>)"
    by (simp add: row_major_has_next_def)
  have len: "length ?cs = nat nr" by simp
  have ncf: "rm_ncols ?f = int (length vs) div nr" by (simp add: nc_def)
  from new ncf drain fin len calls cat show ?thesis by blast
qed

subsection \<open>The claim about the dense formatters\<close>

text \<open>
  The sibling path on the input used below: \<^verbatim>\<open>array_formatter\<close> with \<^verbatim>\<open>order = row_major\<close>
  emits the 2 by 3 matrix stored as \<open>[1, 2, 3, 4, 5, 6]\<close> column by column.
\<close>

lemma array_formatter_row_major_example:
  "\<exists>cs fe. array_drain \<lparr>chunk_size_values = 1\<rparr>
       (new_array_formatter [1, 2, 3, 4, 5, 6 :: int] row_major 2 3) = Some (cs, fe) \<and>
     map (array_chunk_call (\<lambda>v. [''0123456789'' ! nat v])) cs =
       [Some ''1\<newline>4\<newline>'', Some ''2\<newline>5\<newline>'', Some ''3\<newline>6\<newline>'']"
  by (simp add: array_drain.simps array_has_next_def array_next_chunk_def
      new_array_formatter_def array_chunk_call_def array_chunk_loop.simps kNewline_def)

text \<open>
  C2 (what the code does at the failing input). The claim: every dense formatter emits
  one value per line, in column-major order, whatever the storage order of the source;
  \<open>array_formatter_column_major\<close> above proves this of \<^verbatim>\<open>array_formatter\<close> for both
  orders. \<^verbatim>\<open>row_major_array_formatter\<close> does not: over the row-major vector
  \<open>[1, 2, 3, 4, 5, 6]\<close> with \<open>nrows = 2\<close> it makes one chunk per row and emits
  \<open>1 2 3 4 5 6\<close>, the storage order (\<open>row_major_array_formatter_row_major\<close> above, in
  general), where the column-major order of the matrix is \<open>1 4 2 5 3 6\<close>.
\<close>

theorem row_major_array_formatter_emits_rows:
  "new_row_major_array_formatter [1, 2, 3, 4, 5, 6 :: int] 2 =
     Some \<lparr>rm_values = [1, 2, 3, 4, 5, 6], rm_nrows = 2, rm_ncols = 3, rm_cur_row = 0\<rparr> \<and>
   row_major_drain \<lparr>chunk_size_values = 1\<rparr>
     \<lparr>rm_values = [1, 2, 3, 4, 5, 6 :: int], rm_nrows = 2, rm_ncols = 3, rm_cur_row = 0\<rparr> =
     Some ([\<lparr>rm_values = [1, 2, 3, 4, 5, 6], rm_nrows = 2, rm_ncols = 3, rm_cur_row = 0\<rparr>,
            \<lparr>rm_values = [1, 2, 3, 4, 5, 6], rm_nrows = 2, rm_ncols = 3, rm_cur_row = 1\<rparr>],
           \<lparr>rm_values = [1, 2, 3, 4, 5, 6], rm_nrows = 2, rm_ncols = 3, rm_cur_row = 2\<rparr>) \<and>
   map (row_major_chunk_call (\<lambda>v. [''0123456789'' ! nat v]))
     [\<lparr>rm_values = [1, 2, 3, 4, 5, 6 :: int], rm_nrows = 2, rm_ncols = 3, rm_cur_row = 0\<rparr>,
      \<lparr>rm_values = [1, 2, 3, 4, 5, 6], rm_nrows = 2, rm_ncols = 3, rm_cur_row = 1\<rparr>] =
     [Some ''1\<newline>2\<newline>3\<newline>'', Some ''4\<newline>5\<newline>6\<newline>''] \<and>
   value_lines (\<lambda>v. [''0123456789'' ! nat v])
     (column_major_values [1, 2, 3, 4, 5, 6 :: int] row_major 2 3) =
     ''1\<newline>4\<newline>2\<newline>5\<newline>3\<newline>6\<newline>''"
proof (intro conjI)
  show "new_row_major_array_formatter [1, 2, 3, 4, 5, 6 :: int] 2 =
     Some \<lparr>rm_values = [1, 2, 3, 4, 5, 6], rm_nrows = 2, rm_ncols = 3, rm_cur_row = 0\<rparr>"
    by (simp add: new_row_major_array_formatter_def)
  show "row_major_drain \<lparr>chunk_size_values = 1\<rparr>
     \<lparr>rm_values = [1, 2, 3, 4, 5, 6 :: int], rm_nrows = 2, rm_ncols = 3, rm_cur_row = 0\<rparr> =
     Some ([\<lparr>rm_values = [1, 2, 3, 4, 5, 6], rm_nrows = 2, rm_ncols = 3, rm_cur_row = 0\<rparr>,
            \<lparr>rm_values = [1, 2, 3, 4, 5, 6], rm_nrows = 2, rm_ncols = 3, rm_cur_row = 1\<rparr>],
           \<lparr>rm_values = [1, 2, 3, 4, 5, 6], rm_nrows = 2, rm_ncols = 3, rm_cur_row = 2\<rparr>)"
    by (simp add: row_major_drain.simps row_major_has_next_def row_major_next_chunk_def)
  show "map (row_major_chunk_call (\<lambda>v. [''0123456789'' ! nat v]))
     [\<lparr>rm_values = [1, 2, 3, 4, 5, 6 :: int], rm_nrows = 2, rm_ncols = 3, rm_cur_row = 0\<rparr>,
      \<lparr>rm_values = [1, 2, 3, 4, 5, 6], rm_nrows = 2, rm_ncols = 3, rm_cur_row = 1\<rparr>] =
     [Some ''1\<newline>2\<newline>3\<newline>'', Some ''4\<newline>5\<newline>6\<newline>'']"
    by (simp add: row_major_chunk_call_def row_major_chunk_loop.simps kNewline_def)
  show "value_lines (\<lambda>v. [''0123456789'' ! nat v])
     (column_major_values [1, 2, 3, 4, 5, 6 :: int] row_major 2 3) =
     ''1\<newline>4\<newline>2\<newline>5\<newline>3\<newline>6\<newline>''"
    by (simp add: value_lines_def column_major_values_def matrix_element_def upt_rec)
qed

section \<open>Properties of the CSC partition\<close>

text \<open>What \<^verbatim>\<open>next_chunk\<close> computes, for a non-negative estimate and chunk size.\<close>

lemma csc_next_chunk_columns:
  assumes "0 \<le> nnz_per_column f" and "0 \<le> chunk_size_values opts"
  shows "fst (csc_next_chunk opts f) =
     (ptr_iter f,
      ptr_iter f + min \<lfloor>nnz_per_column f * real_of_int (chunk_size_values opts) + 1\<rfloor>
                       (ptr_end f - ptr_iter f))"
  using assms by (simp add: csc_next_chunk_def truncate_to_int64_def Let_def)

text \<open>
  C5 (what the code does at the failing input). The claim: a work unit of
  \<^verbatim>\<open>csc_formatter::next_chunk\<close> covers \<open>\<lceil>chunk_size_values / nnz_per_column\<rceil>\<close> columns,
  capped by the columns left. Four columns with eight entries give \<open>nnz_per_column = 2\<close>;
  with \<open>chunk_size_values = 2\<close> the claim gives one column, and the code, which multiplies
  where the claim divides, computes \<open>2 * 2 + 1 = 5\<close>, capped to all four columns.
\<close>

theorem csc_next_chunk_column_count:
  "new_csc_formatter 4 8 8 = Inr \<lparr>ptr_iter = 0, ptr_end = 4, nnz_per_column = 2\<rparr> \<and>
   fst (csc_next_chunk \<lparr>chunk_size_values = 2\<rparr>
          \<lparr>ptr_iter = 0, ptr_end = 4, nnz_per_column = 2\<rparr>) = (0, 4) \<and>
   \<lceil>real_of_int (chunk_size_values \<lparr>chunk_size_values = 2\<rparr>) /
      nnz_per_column \<lparr>ptr_iter = 0, ptr_end = 4, nnz_per_column = 2\<rparr>\<rceil> = 1"
  by (simp add: new_csc_formatter_def csc_next_chunk_def truncate_to_int64_def)

section \<open>Properties of the chunk handlers\<close>

lemma handle_all_closed:
  "handle_all h recs mem =
     (h\<lparr>offset := offset h + int (length recs)\<rparr>,
      \<lparr>np_rows = (\<lambda>i. if offset h \<le> i \<and> i < offset h + int (length recs)
                           then fst (recs ! nat (i - offset h)) else np_rows mem i),
       np_cols = (\<lambda>i. if offset h \<le> i \<and> i < offset h + int (length recs)
                           then fst (snd (recs ! nat (i - offset h))) else np_cols mem i),
       np_values = (\<lambda>i. if offset h \<le> i \<and> i < offset h + int (length recs)
                           then snd (snd (recs ! nat (i - offset h))) else np_values mem i)\<rparr>)"
proof (induction recs arbitrary: h mem)
  case Nil
  show ?case by (cases mem) (auto simp: fun_eq_iff)
next
  case (Cons rec recs)
  obtain r c v where rec: "rec = (r, c, v)" by (cases rec) auto
  have idx: "nat (i - offset h) = Suc (nat (i - (offset h + 1)))" if "offset h < i" for i
    using that by simp
  show ?case
    unfolding rec
    apply (simp add: handle_def Cons.IH)
    apply (intro conjI ext)
    apply (auto simp: idx)
    done
qed

text \<open>
  C8. The handlers that \<^verbatim>\<open>triplet_numpy_parse_handler::get_chunk_handler(offset)\<close> returns
  write only to the positions \<open>offset, offset + 1, \<dots>\<close> of the three arrays: after
  \<open>n\<close> calls of \<^verbatim>\<open>handle\<close> the positions \<open>offset \<le> i < offset + n\<close> hold the records in
  call order and every other position is as before; before its \<open>j\<close>-th call (from 0) the
  handler stands at \<open>offset + j\<close>, the position that call writes. Two chunk handlers with
  disjoint ranges therefore write disjoint positions: running them in either order
  leaves the same arrays.
\<close>

theorem chunk_handler_writes_own_range:
  "handle_all (get_chunk_handler h off) recs mem =
     (\<lparr>offset = off + int (length recs)\<rparr>,
      \<lparr>np_rows = (\<lambda>i. if off \<le> i \<and> i < off + int (length recs)
                           then fst (recs ! nat (i - off)) else np_rows mem i),
       np_cols = (\<lambda>i. if off \<le> i \<and> i < off + int (length recs)
                           then fst (snd (recs ! nat (i - off))) else np_cols mem i),
       np_values = (\<lambda>i. if off \<le> i \<and> i < off + int (length recs)
                           then snd (snd (recs ! nat (i - off))) else np_values mem i)\<rparr>) \<and>
   (\<forall>j \<le> length recs.
      offset (fst (handle_all (get_chunk_handler h off) (take j recs) mem)) = off + int j) \<and>
   (off + int (length recs) \<le> off' \<or> off' + int (length recs') \<le> off \<longrightarrow>
      snd (handle_all (get_chunk_handler h off') recs'
             (snd (handle_all (get_chunk_handler h off) recs mem))) =
      snd (handle_all (get_chunk_handler h off) recs
             (snd (handle_all (get_chunk_handler h off') recs' mem))))"
proof (intro conjI allI impI)
  show "handle_all (get_chunk_handler h off) recs mem =
     (\<lparr>offset = off + int (length recs)\<rparr>,
      \<lparr>np_rows = (\<lambda>i. if off \<le> i \<and> i < off + int (length recs)
                           then fst (recs ! nat (i - off)) else np_rows mem i),
       np_cols = (\<lambda>i. if off \<le> i \<and> i < off + int (length recs)
                           then fst (snd (recs ! nat (i - off))) else np_cols mem i),
       np_values = (\<lambda>i. if off \<le> i \<and> i < off + int (length recs)
                           then snd (snd (recs ! nat (i - off))) else np_values mem i)\<rparr>)"
    by (simp add: handle_all_closed get_chunk_handler_def cong: if_cong)
next
  fix j assume "j \<le> length recs"
  then show "offset (fst (handle_all (get_chunk_handler h off) (take j recs) mem)) = off + int j"
    by (simp add: handle_all_closed get_chunk_handler_def min_def)
next
  assume "off + int (length recs) \<le> off' \<or> off' + int (length recs') \<le> off"
  then show "snd (handle_all (get_chunk_handler h off') recs'
             (snd (handle_all (get_chunk_handler h off) recs mem))) =
      snd (handle_all (get_chunk_handler h off) recs
             (snd (handle_all (get_chunk_handler h off') recs' mem)))"
    by (auto simp: handle_all_closed get_chunk_handler_def fun_eq_iff)
qed

theorem chunk_handler_writes_own_range_witness:
  "map (np_rows (snd (handle_all (get_chunk_handler \<lparr>offset = 0\<rparr> 2) [(7, 8, 9 :: int), (4, 5, 6)]
      \<lparr>np_rows = \<lambda>_. 0 :: int, np_cols = \<lambda>_. 0, np_values = \<lambda>_. 0 :: int\<rparr>))) [1, 2, 3, 4] =
     [0, 7, 4, 0] \<and>
   snd (handle_all (get_chunk_handler \<lparr>offset = 0\<rparr> 2) [(7, 8, 9 :: int), (4, 5, 6)]
          (snd (handle_all (get_chunk_handler \<lparr>offset = 0\<rparr> 0) [(1, 2, 3), (1, 1, 1)]
             \<lparr>np_rows = \<lambda>_. 0 :: int, np_cols = \<lambda>_. 0, np_values = \<lambda>_. 0 :: int\<rparr>))) =
   snd (handle_all (get_chunk_handler \<lparr>offset = 0\<rparr> 0) [(1, 2, 3), (1, 1, 1)]
          (snd (handle_all (get_chunk_handler \<lparr>offset = 0\<rparr> 2) [(7, 8, 9 :: int), (4, 5, 6)]
             \<lparr>np_rows = \<lambda>_. 0 :: int, np_cols = \<lambda>_. 0, np_values = \<lambda>_. 0 :: int\<rparr>)))"
proof (rule conjI)
  note t = chunk_handler_writes_own_range [of "\<lparr>offset = 0\<rparr>" 0 "[(1, 2, 3), (1, 1, 1)]"
      "\<lparr>np_rows = \<lambda>_. 0 :: int, np_cols = \<lambda>_. 0, np_values = \<lambda>_. 0 :: int\<rparr>" 2
      "[(7, 8, 9), (4, 5, 6)]"]
  have "(0 :: int) + int (length [(1, 2, 3 :: int), (1 :: int, 1 :: int, 1)]) \<le> 2 \<or>
        2 + int (length [(7, 8, 9 :: int), (4 :: int, 5 :: int, 6)]) \<le> (0 :: int)"
    by simp
  with t [THEN conjunct2, THEN conjunct2]
  show "snd (handle_all (get_chunk_handler \<lparr>offset = 0\<rparr> 2) [(7, 8, 9 :: int), (4, 5, 6)]
          (snd (handle_all (get_chunk_handler \<lparr>offset = 0\<rparr> 0) [(1, 2, 3), (1, 1, 1)]
             \<lparr>np_rows = \<lambda>_. 0 :: int, np_cols = \<lambda>_. 0, np_values = \<lambda>_. 0 :: int\<rparr>))) =
   snd (handle_all (get_chunk_handler \<lparr>offset = 0\<rparr> 0) [(1, 2, 3), (1, 1, 1)]
          (snd (handle_all (get_chunk_handler \<lparr>offset = 0\<rparr> 2) [(7, 8, 9 :: int), (4, 5, 6)]
             \<lparr>np_rows = \<lambda>_. 0 :: int, np_cols = \<lambda>_. 0, np_values = \<lambda>_. 0 :: int\<rparr>)))"
    by (rule mp)
next
  show "map (np_rows (snd (handle_all (get_chunk_handler \<lparr>offset = 0\<rparr> 2) [(7, 8, 9 :: int), (4, 5, 6)]
      \<lparr>np_rows = \<lambda>_. 0 :: int, np_cols = \<lambda>_. 0, np_values = \<lambda>_. 0 :: int\<rparr>))) [1, 2, 3, 4] =
     [0, 7, 4, 0]"
    by (subst chunk_handler_writes_own_range [THEN conjunct1]) simp
qed

section \<open>Properties of the read engine\<close>

lemma read_body_threads_snoc:
  "read_body_threads cl tc header chunks (es @ [e]) =
     exec cl tc header e (read_body_threads cl tc header chunks es)"
  by (simp add: read_body_threads_def)

lemma read_body_threads_append:
  "read_body_threads cl tc header chunks (es @ es') =
     fold (exec cl tc header) es' (read_body_threads cl tc header chunks es)"
  by (simp add: read_body_threads_def)

subsection \<open>The effect of the steps on each field\<close>

lemma submit_line_count_Cons:
  "instream s = c # rest \<Longrightarrow>
   submit_line_count s =
     s\<lparr>instream := rest,
       line_count_futures := line_count_futures s @
         [Pending \<lparr>chunk = c, chunk_line_start = - 1, chunk_line_count = - 1\<rparr>]\<rparr>"
  by (simp add: submit_line_count_def)

lemma unread_chunks_submit:
  "unread_chunks (submit_line_count s) = unread_chunks s"
  by (cases "instream s") (simp_all add: submit_line_count_def unread_chunks_def)

lemma submit_line_count_fields:
  "line_num (submit_line_count s) = line_num s"
  "parse_tasks (submit_line_count s) = parse_tasks s"
  "parse_unfinished (submit_line_count s) = parse_unfinished s"
  "control (submit_line_count s) = control s"
  by (cases "instream s"; simp add: submit_line_count_def)+

lemma dispatch_Ready:
  assumes "line_count_futures s = Ready r # rest"
  shows "line_count_futures (dispatch header s) = rest"
    and "instream (dispatch header s) = instream s"
    and "line_num (dispatch header s) = line_num s + chunk_line_count r"
    and "control (dispatch header s) =
           (if format header = array \<and> ncols header = 0 then DivisionByZero else control s)"
    and "format header = array \<and> ncols header = 0 \<Longrightarrow>
           parse_tasks (dispatch header s) = parse_tasks s \<and>
           parse_unfinished (dispatch header s) = parse_unfinished s"
    and "\<not> (format header = array \<and> ncols header = 0) \<Longrightarrow>
           \<exists>t. parse_tasks (dispatch header s) = parse_tasks s @ [t] \<and>
               task_key t = (chunk r, line_num s) \<and>
               task_handler_offset t = line_num s - header_line_count header \<and>
               (case t of
                  read_chunk_array c ls off row col \<Rightarrow>
                    format header = array \<and> row = off smod ncols header \<and>
                    col = off sdiv ncols header
                | read_chunk_matrix_coordinate c ls off \<Rightarrow>
                    format header \<noteq> array \<and> object header = matrix
                | read_chunk_vector_coordinate c ls off \<Rightarrow>
                    format header \<noteq> array \<and> object header \<noteq> matrix) \<and>
               parse_unfinished (dispatch header s) = parse_unfinished s + 1"
  using assms by (auto simp: dispatch_def submit_parse_def Let_def task_key_def)

lemma dispatch_not_Ready:
  "\<not> (\<exists>r rest. line_count_futures s = Ready r # rest) \<Longrightarrow> dispatch header s = s"
  by (auto simp: dispatch_def split: list.splits future.splits)

lemma dispatch_instream: "instream (dispatch header s) = instream s"
  by (simp add: dispatch_def submit_parse_def Let_def split: list.splits future.splits)

lemma line_count_done_front:
  assumes "line_count_futures s = Ready r # rest"
  shows "\<exists>rest'. line_count_futures (line_count_done cl k s) = Ready r # rest' \<and>
           length rest' = length rest"
  using assms by (cases k) (auto simp: line_count_done_def split: future.splits)

lemma line_count_done_Nil: "line_count_futures s = [] \<Longrightarrow> line_count_done cl k s = s"
  by (simp add: line_count_done_def)

lemma line_count_done_fields:
  "length (line_count_futures (line_count_done cl k s)) = length (line_count_futures s)"
  "instream (line_count_done cl k s) = instream s"
  "parse_tasks (line_count_done cl k s) = parse_tasks s"
  "parse_unfinished (line_count_done cl k s) = parse_unfinished s"
  "control (line_count_done cl k s) = control s"
  "line_num (line_count_done cl k s) = line_num s"
  by (simp_all add: line_count_done_def split: future.splits)

subsection \<open>The order invariant\<close>

lemma prefix_is_take: "xs @ ys = zs \<Longrightarrow> take (length xs) zs = xs"
  by auto

lemma inv_order_init: "inv_order cl header chunks (read_body_threads_init header chunks)"
  by (simp add: inv_order_def read_body_threads_init_def unread_chunks_def)

lemma submit_line_count_ready:
  "f \<in> set (line_count_futures (submit_line_count s)) \<Longrightarrow> is_ready f \<Longrightarrow>
   f \<in> set (line_count_futures s)"
  by (cases "instream s") (auto simp: submit_line_count_def)

lemma inv_order_submit:
  "inv_order cl header chunks s \<Longrightarrow> inv_order cl header chunks (submit_line_count s)"
  unfolding inv_order_def
  using submit_line_count_ready [of _ s]
  by (simp add: unread_chunks_submit submit_line_count_fields)

lemma inv_order_control:
  "inv_order cl header chunks s \<Longrightarrow> control s \<noteq> DivisionByZero \<Longrightarrow>
   inv_order cl header chunks (s\<lparr>control := c\<rparr>)"
  by (simp add: inv_order_def unread_chunks_def)

lemma inv_order_dispatch:
  assumes inv: "inv_order cl header chunks s" and ok: "control s \<noteq> DivisionByZero"
    and front: "line_count_futures s = Ready r # rest"
  shows "inv_order cl header chunks (dispatch header s)"
proof -
  from inv front have count: "chunk_line_count r = cl (chunk r)"
    by (simp add: inv_order_def)
  from inv ok front have eq:
    "map task_key (parse_tasks s) @
       (chunk r, line_num s) #
       assign_line_starts cl (line_num s + cl (chunk r))
         (map (\<lambda>f. chunk (future_arg f)) rest @ instream s) =
     assign_line_starts cl (header_line_count header) chunks"
    and ln: "header_line_count header + sum_list (map (\<lambda>t. cl (task_chunk t)) (parse_tasks s)) =
           line_num s"
    by (simp_all add: inv_order_def unread_chunks_def)
  from inv have pre: "take (length (parse_tasks s))
      (assign_line_starts cl (header_line_count header) chunks) = map task_key (parse_tasks s)"
    by (simp add: inv_order_def)
  from inv front have rdy: "\<forall>f \<in> set rest.
      is_ready f \<longrightarrow> chunk_line_count (future_arg f) = cl (chunk (future_arg f))"
    by (simp add: inv_order_def)
  note d = dispatch_Ready [OF front, of header]
  show ?thesis
  proof (cases "format header = array \<and> ncols header = 0")
    case True
    with d pre rdy show ?thesis by (simp add: inv_order_def)
  next
    case False
    from d(6) [OF False] obtain t where
      t: "parse_tasks (dispatch header s) = parse_tasks s @ [t]"
         "task_key t = (chunk r, line_num s)"
      by blast
    from t(2) have tc: "task_chunk t = chunk r" by (simp add: task_key_def)
    have eq': "map task_key (parse_tasks (dispatch header s)) @
        assign_line_starts cl (line_num (dispatch header s)) (unread_chunks (dispatch header s)) =
        assign_line_starts cl (header_line_count header) chunks"
      using eq t d(1,2,3) count by (simp add: unread_chunks_def)
    have ln': "header_line_count header +
        sum_list (map (\<lambda>t. cl (task_chunk t)) (parse_tasks (dispatch header s))) =
        line_num (dispatch header s)"
      using ln t(1) tc d(3) count by simp
    from prefix_is_take [OF eq'] eq' ln' rdy d(1) show ?thesis
      by (simp add: inv_order_def)
  qed
qed

lemma inv_order_main:
  assumes "inv_order cl header chunks s"
  shows "inv_order cl header chunks (main_step tc header s)"
proof (cases "control s")
  case (Seeding seed_i)
  with assms inv_order_submit [OF assms] show ?thesis
    by (auto simp: main_step_def inv_order_control submit_line_count_fields)
next
  case Dispatching
  show ?thesis
  proof (cases "line_count_futures s")
    case Nil
    with Dispatching assms show ?thesis
      by (simp add: main_step_def inv_order_control)
  next
    case (Cons front rest)
    show ?thesis
    proof (cases "get_tasks_total s < inflight_count tc \<and> is_ready front")
      case False
      with Dispatching Cons assms show ?thesis by (auto simp: main_step_def)
    next
      case True
      let ?s' = "if instream s \<noteq> [] then submit_line_count s else s"
      have inv': "inv_order cl header chunks ?s'"
        using assms inv_order_submit [OF assms] by simp
      have ok': "control ?s' \<noteq> DivisionByZero"
        using Dispatching by (simp add: submit_line_count_fields)
      from inv_order_control [OF inv' ok', of Replaced]
      show ?thesis using Dispatching Cons True by (simp add: main_step_def)
    qed
  qed
next
  case Replaced
  let ?s' = "s\<lparr>control := Dispatching\<rparr>"
  have inv': "inv_order cl header chunks ?s'"
    using assms Replaced by (simp add: inv_order_control)
  have step: "main_step tc header s = dispatch header ?s'"
    using Replaced by (simp add: main_step_def)
  show ?thesis
  proof (cases "\<exists>r rest. line_count_futures ?s' = Ready r # rest")
    case True
    then obtain r rest where "line_count_futures ?s' = Ready r # rest" by blast
    from inv_order_dispatch [OF inv' _ this] show ?thesis unfolding step by simp
  next
    case False
    from dispatch_not_Ready [OF this] inv' show ?thesis unfolding step by simp
  qed
next
  case Joining
  with assms show ?thesis by (auto simp: main_step_def inv_order_control)
next
  case (Returned r)
  with assms show ?thesis by (simp add: main_step_def)
next
  case DivisionByZero
  with assms show ?thesis by (simp add: main_step_def)
qed

lemma inv_order_line_count_done:
  assumes "inv_order cl header chunks s"
  shows "inv_order cl header chunks (line_count_done cl k s)"
proof (cases "k < length (line_count_futures s)")
  case False
  with assms show ?thesis by (simp add: line_count_done_def)
next
  case True
  show ?thesis
  proof (cases "line_count_futures s ! k")
    case (Ready r)
    with assms True show ?thesis by (simp add: line_count_done_def)
  next
    case (Pending lcr)
    let ?fs = "(line_count_futures s)[k := Ready (count_chunk_lines cl lcr)]"
    have "map (\<lambda>f. chunk (future_arg f)) ?fs = map (\<lambda>f. chunk (future_arg f)) (line_count_futures s)"
      using True Pending
      by (simp add: map_update count_chunk_lines_def list_update_same_conv)
    moreover have "\<forall>f \<in> set ?fs.
        is_ready f \<longrightarrow> chunk_line_count (future_arg f) = cl (chunk (future_arg f))"
    proof
      fix f assume "f \<in> set ?fs"
      then have "f = Ready (count_chunk_lines cl lcr) \<or> f \<in> set (line_count_futures s)"
        using set_update_subset_insert [of "line_count_futures s" k] by auto
      with assms show "is_ready f \<longrightarrow> chunk_line_count (future_arg f) = cl (chunk (future_arg f))"
        by (auto simp: inv_order_def count_chunk_lines_def)
    qed
    ultimately show ?thesis
      using assms True Pending
      by (simp add: line_count_done_def inv_order_def unread_chunks_def)
  qed
qed

lemma inv_order_exec:
  "inv_order cl header chunks s \<Longrightarrow> inv_order cl header chunks (exec cl tc header e s)"
proof (cases e)
  case Main
  assume "inv_order cl header chunks s"
  then show ?thesis using Main by (simp add: inv_order_main)
next
  case (LineCountDone k)
  assume "inv_order cl header chunks s"
  then show ?thesis using LineCountDone by (simp add: inv_order_line_count_done)
next
  case ParseDone
  assume "inv_order cl header chunks s"
  then show ?thesis using ParseDone
    by (simp add: parse_done_def inv_order_def unread_chunks_def)
qed

lemma inv_order_run:
  "inv_order cl header chunks (read_body_threads cl tc header chunks es)"
proof (induction es rule: rev_induct)
  case Nil
  show ?case by (simp add: read_body_threads_def inv_order_init)
next
  case (snoc e es)
  then show ?case by (simp add: read_body_threads_snoc inv_order_exec)
qed

subsection \<open>The control invariant\<close>

lemma inv_control_init: "inv_control tc header (read_body_threads_init header chunks)"
  by (simp add: inv_control_def read_body_threads_init_def)

lemma parse_unfinished_le_total: "parse_unfinished s \<le> get_tasks_total s"
  by (simp add: get_tasks_total_def)

lemma submit_line_count_length:
  "instream s \<noteq> [] \<Longrightarrow>
   length (line_count_futures (submit_line_count s)) = Suc (length (line_count_futures s)) \<and>
   instream (submit_line_count s) = tl (instream s)"
  by (cases "instream s") (simp_all add: submit_line_count_def)

lemma submit_line_count_front:
  "line_count_futures s = front # rest \<Longrightarrow>
   \<exists>rest'. line_count_futures (submit_line_count s) = front # rest'"
  by (cases "instream s") (simp_all add: submit_line_count_def)

lemma inv_control_main:
  assumes inv: "inv_control tc header s"
  shows "inv_control tc header (main_step tc header s)"
proof (cases "control s")
  case (Seeding seed_i)
  show ?thesis
  proof (cases "seed_i < inflight_count tc \<and> instream s \<noteq> []")
    case True
    with inv Seeding submit_line_count_length [of s] show ?thesis
      by (simp add: main_step_def inv_control_def submit_line_count_fields)
  next
    case False
    with inv Seeding show ?thesis
      by (auto simp: main_step_def inv_control_def)
  qed
next
  case Dispatching
  show ?thesis
  proof (cases "line_count_futures s")
    case Nil
    with inv Dispatching show ?thesis
      by (auto simp: main_step_def inv_control_def)
  next
    case (Cons front rest)
    show ?thesis
    proof (cases "get_tasks_total s < inflight_count tc \<and> is_ready front")
      case False
      with Dispatching Cons inv show ?thesis by (auto simp: main_step_def)
    next
      case True
      then obtain r where r: "front = Ready r" by (cases front) auto
      let ?s' = "if instream s \<noteq> [] then submit_line_count s else s"
      from Cons r submit_line_count_front [of s front rest]
      obtain rest' where front': "line_count_futures ?s' = Ready r # rest'"
        by (cases "instream s = []") auto
      have step: "main_step tc header s = ?s'\<lparr>control := Replaced\<rparr>"
        using Dispatching Cons True by (simp add: main_step_def)
      have pu: "parse_unfinished ?s' = parse_unfinished s"
        by (simp add: submit_line_count_fields)
      have pul: "parse_unfinished s < inflight_count tc"
        using True parse_unfinished_le_total [of s] by simp
      from inv Dispatching have le: "length (line_count_futures s) \<le> inflight_count tc"
        by (simp add: inv_control_def)
      have len: "length (line_count_futures ?s') \<le> inflight_count tc + 1 \<and>
                 (instream ?s' \<noteq> [] \<longrightarrow>
                    length (line_count_futures ?s') = inflight_count tc + 1)"
      proof (cases "instream s = []")
        case True
        with le show ?thesis by simp
      next
        case False
        with inv Dispatching have "length (line_count_futures s) = inflight_count tc"
          by (simp add: inv_control_def)
        with False submit_line_count_length [of s] show ?thesis by simp
      qed
      from len pu pul front' show ?thesis
        unfolding step by (simp add: inv_control_def)
    qed
  qed
next
  case Replaced
  with inv obtain r rest where front: "line_count_futures s = Ready r # rest"
    and pul: "parse_unfinished s < inflight_count tc"
    and full: "instream s \<noteq> [] \<longrightarrow> length (line_count_futures s) = inflight_count tc + 1"
    and le: "length (line_count_futures s) \<le> inflight_count tc + 1"
    by (auto simp: inv_control_def)
  let ?s' = "s\<lparr>control := Dispatching\<rparr>"
  have front': "line_count_futures ?s' = Ready r # rest" using front by simp
  note d = dispatch_Ready [OF front', of header]
  have step: "main_step tc header s = dispatch header ?s'"
    using Replaced by (simp add: main_step_def)
  have len: "length rest \<le> inflight_count tc \<and>
             (instream s \<noteq> [] \<longrightarrow> length rest = inflight_count tc)"
    using front full le by auto
  show ?thesis
  proof (cases "format header = array \<and> ncols header = 0")
    case True
    with d(1,2,4,5) len pul show ?thesis
      unfolding step by (simp add: inv_control_def)
  next
    case False
    from d(6) [OF False] have "parse_unfinished (dispatch header ?s') = parse_unfinished ?s' + 1"
      by blast
    with d(1,2,4) False len pul show ?thesis
      unfolding step by (simp add: inv_control_def)
  qed
next
  case Joining
  with inv show ?thesis by (auto simp: main_step_def inv_control_def)
next
  case (Returned r)
  with inv show ?thesis by (simp add: main_step_def)
next
  case DivisionByZero
  with inv show ?thesis by (simp add: main_step_def)
qed

lemma inv_control_exec:
  assumes "inv_control tc header s"
  shows "inv_control tc header (exec cl tc header e s)"
proof (cases e)
  case Main
  with assms show ?thesis by (simp add: inv_control_main)
next
  case (LineCountDone k)
  show ?thesis
  proof (cases "control s = Replaced")
    case False
    with assms LineCountDone show ?thesis
      by (auto simp: inv_control_def line_count_done_fields line_count_done_Nil
            split: control.splits)
  next
    case True
    with assms obtain r rest where "line_count_futures s = Ready r # rest"
      by (auto simp: inv_control_def)
    from line_count_done_front [OF this, of cl k]
    have "\<exists>r rest. line_count_futures (line_count_done cl k s) = Ready r # rest" by blast
    with assms LineCountDone True show ?thesis
      by (simp add: inv_control_def line_count_done_fields)
  qed
next
  case ParseDone
  with assms show ?thesis
    by (auto simp: parse_done_def inv_control_def split: control.splits)
qed

lemma inv_control_fold:
  "inv_control tc header s \<Longrightarrow> inv_control tc header (fold (exec cl tc header) es s)"
  by (induction es arbitrary: s) (simp_all add: inv_control_exec)

lemma inv_control_run:
  "inv_control tc header (read_body_threads cl tc header chunks es)"
  by (simp add: read_body_threads_def inv_control_fold inv_control_init)

subsection \<open>What the parse tasks were given\<close>

lemma inv_offsets_dispatch:
  assumes inv: "inv_offsets header s"
  shows "inv_offsets header (dispatch header s)"
proof (cases "\<exists>r rest. line_count_futures s = Ready r # rest")
  case False
  from dispatch_not_Ready [OF this] inv show ?thesis by simp
next
  case True
  then obtain r rest where front: "line_count_futures s = Ready r # rest" by blast
  note d = dispatch_Ready [OF front, of header]
  show ?thesis
  proof (cases "format header = array \<and> ncols header = 0")
    case True
    with d(5) inv show ?thesis by (simp add: inv_offsets_def)
  next
    case False
    from d(6) [OF False] obtain t where
      t: "parse_tasks (dispatch header s) = parse_tasks s @ [t]"
         "task_key t = (chunk r, line_num s)"
         "task_handler_offset t = line_num s - header_line_count header"
         "(case t of
              read_chunk_array c ls off row col \<Rightarrow>
                format header = array \<and> row = off smod ncols header \<and>
                col = off sdiv ncols header
            | read_chunk_matrix_coordinate c ls off \<Rightarrow>
                format header \<noteq> array \<and> object header = matrix
            | read_chunk_vector_coordinate c ls off \<Rightarrow>
                format header \<noteq> array \<and> object header \<noteq> matrix)"
      by blast
    from t(2,3) have "task_handler_offset t = task_line_start t - header_line_count header"
      by (simp add: task_key_def)
    with t(1,4) inv show ?thesis by (simp add: inv_offsets_def)
  qed
qed

lemma inv_offsets_main:
  assumes inv: "inv_offsets header s"
  shows "inv_offsets header (main_step tc header s)"
proof (cases "control s")
  case (Seeding seed_i)
  with inv show ?thesis
    by (auto simp: main_step_def inv_offsets_def submit_line_count_fields)
next
  case Dispatching
  with inv show ?thesis
    by (auto simp: main_step_def inv_offsets_def submit_line_count_fields split: list.splits)
next
  case Replaced
  from inv have "inv_offsets header (s\<lparr>control := Dispatching\<rparr>)"
    by (simp add: inv_offsets_def)
  from inv_offsets_dispatch [OF this] Replaced show ?thesis by (simp add: main_step_def)
next
  case Joining
  with inv show ?thesis by (auto simp: main_step_def inv_offsets_def)
next
  case (Returned r)
  with inv show ?thesis by (simp add: main_step_def)
next
  case DivisionByZero
  with inv show ?thesis by (simp add: main_step_def)
qed

lemma inv_offsets_exec:
  assumes "inv_offsets header s"
  shows "inv_offsets header (exec cl tc header e s)"
proof (cases e)
  case Main
  with assms show ?thesis by (simp add: inv_offsets_main)
next
  case (LineCountDone k)
  with assms show ?thesis
    by (auto simp: line_count_done_def inv_offsets_def split: future.splits)
next
  case ParseDone
  with assms show ?thesis by (auto simp: parse_done_def inv_offsets_def)
qed

lemma inv_offsets_run:
  "inv_offsets header (read_body_threads cl tc header chunks es)"
proof (induction es rule: rev_induct)
  case Nil
  show ?case by (simp add: read_body_threads_def read_body_threads_init_def inv_offsets_def)
next
  case (snoc e es)
  then show ?case by (simp add: read_body_threads_snoc inv_offsets_exec)
qed

subsection \<open>Every run can be continued until the function returns\<close>

lemma filter_update_pending:
  assumes "k < length fs" and "\<not> is_ready (fs ! k)"
  shows "length (filter (\<lambda>f. \<not> is_ready f) (fs[k := Ready r])) + 1 =
           length (filter (\<lambda>f. \<not> is_ready f) fs)"
    and "length (filter is_ready (fs[k := Ready r])) = length (filter is_ready fs) + 1"
proof -
  have fs: "fs = take k fs @ fs ! k # drop (Suc k) fs"
    using assms(1) by (simp add: id_take_nth_drop)
  have upd: "fs[k := Ready r] = take k fs @ Ready r # drop (Suc k) fs"
    using assms(1) by (simp add: upd_conv_take_nth_drop)
  show "length (filter (\<lambda>f. \<not> is_ready f) (fs[k := Ready r])) + 1 =
           length (filter (\<lambda>f. \<not> is_ready f) fs)"
    unfolding upd by (subst (3) fs) (simp add: assms(2))
  show "length (filter is_ready (fs[k := Ready r])) = length (filter is_ready fs) + 1"
    unfolding upd by (subst (3) fs) (simp add: assms(2))
qed

lemma first_pending:
  "filter (\<lambda>f. \<not> is_ready f) fs \<noteq> [] \<Longrightarrow>
   length (takeWhile is_ready fs) < length fs \<and> \<not> is_ready (fs ! length (takeWhile is_ready fs))"
  by (induction fs) auto

lemma steps_left_line_count_done:
  assumes "k < length (line_count_futures s)" and "\<not> is_ready (line_count_futures s ! k)"
  shows "steps_left (line_count_done cl k s) + 1 = steps_left s"
proof -
  from assms(2) obtain lcr where p: "line_count_futures s ! k = Pending lcr"
    by (cases "line_count_futures s ! k") auto
  from filter_update_pending [OF assms, of "count_chunk_lines cl lcr"] assms(1) p
  show ?thesis by (simp add: line_count_done_def steps_left_def)
qed

lemma steps_left_parse_done:
  "0 < parse_unfinished s \<Longrightarrow> steps_left (parse_done s) + 1 = steps_left s"
  by (simp add: parse_done_def steps_left_def)

lemma steps_left_finish_some:
  assumes "0 < get_tasks_total s"
  shows "steps_left (exec cl tc header (finish_some s) s) < steps_left s"
proof (cases "0 < parse_unfinished s")
  case True
  with steps_left_parse_done [OF True] show ?thesis by (simp add: finish_some_def)
next
  case False
  with assms have "filter (\<lambda>f. \<not> is_ready f) (line_count_futures s) \<noteq> []"
    by (auto simp: get_tasks_total_def)
  from first_pending [OF this] have
    "length (takeWhile is_ready (line_count_futures s)) < length (line_count_futures s)"
    "\<not> is_ready (line_count_futures s ! length (takeWhile is_ready (line_count_futures s)))"
    by simp_all
  from steps_left_line_count_done [OF this, of cl] False show ?thesis
    by (simp add: finish_some_def)
qed

lemma steps_left_submit:
  "instream s \<noteq> [] \<Longrightarrow> steps_left (submit_line_count s) + 1 = steps_left s"
  by (cases "instream s") (simp_all add: submit_line_count_def steps_left_def)

lemma steps_left_dispatch:
  assumes "line_count_futures s = Ready r # rest"
  shows "steps_left (dispatch header s) + 3 \<le> steps_left s"
proof (cases "format header = array \<and> ncols header = 0")
  case True
  with dispatch_Ready(1,2,4,5) [OF assms, of header] assms show ?thesis
    by (simp add: steps_left_def)
next
  case False
  from dispatch_Ready(6) [OF assms False]
  have "parse_unfinished (dispatch header s) = parse_unfinished s + 1" by blast
  with dispatch_Ready(1,2,4) [OF assms, of header] assms False show ?thesis
    by (simp add: steps_left_def)
qed

lemma next_event_decreases:
  assumes cap: "0 < inflight_count tc"
    and inv: "inv_control tc header s"
    and run: "\<forall>r. control s \<noteq> Returned r" "control s \<noteq> DivisionByZero"
  shows "steps_left (exec cl tc header (next_event tc s) s) < steps_left s"
proof (cases "control s")
  case (Seeding seed_i)
  show ?thesis
  proof (cases "seed_i < inflight_count tc \<and> instream s \<noteq> []")
    case True
    with steps_left_submit [of s] Seeding show ?thesis
      by (simp add: next_event_def main_step_def steps_left_def submit_line_count_fields)
  next
    case False
    with Seeding show ?thesis
      by (auto simp: next_event_def main_step_def steps_left_def)
  qed
next
  case Dispatching
  show ?thesis
  proof (cases "line_count_futures s")
    case Nil
    with Dispatching show ?thesis
      by (simp add: next_event_def main_step_def steps_left_def)
  next
    case (Cons front rest)
    show ?thesis
    proof (cases "is_ready front")
      case False
      with Cons have "0 < length (line_count_futures s)" "\<not> is_ready (line_count_futures s ! 0)"
        by simp_all
      from steps_left_line_count_done [OF this, of cl] Dispatching Cons False show ?thesis
        by (simp add: next_event_def)
    next
      case True
      show ?thesis
      proof (cases "get_tasks_total s < inflight_count tc")
        case False
        with cap have "0 < get_tasks_total s" by simp
        from steps_left_finish_some [OF this, of cl tc header] Dispatching Cons True False
        show ?thesis by (simp add: next_event_def)
      next
        case gate: True
        let ?s' = "if instream s \<noteq> [] then submit_line_count s else s"
        have "steps_left ?s' \<le> steps_left s"
          using steps_left_submit [of s] by (cases "instream s = []") simp_all
        moreover have "control ?s' = Dispatching"
          using Dispatching by (simp add: submit_line_count_fields)
        ultimately have "steps_left (?s'\<lparr>control := Replaced\<rparr>) < steps_left s"
          by (simp add: steps_left_def)
        with Dispatching Cons True gate show ?thesis
          by (simp add: next_event_def main_step_def)
      qed
    qed
  qed
next
  case Replaced
  with inv obtain r rest where front: "line_count_futures s = Ready r # rest"
    by (auto simp: inv_control_def)
  let ?s' = "s\<lparr>control := Dispatching\<rparr>"
  have front': "line_count_futures ?s' = Ready r # rest" using front by simp
  have "steps_left ?s' = steps_left s + 1"
    using Replaced by (simp add: steps_left_def)
  with steps_left_dispatch [OF front', of header]
  have "steps_left (dispatch header ?s') < steps_left s" by simp
  with Replaced show ?thesis by (simp add: next_event_def main_step_def)
next
  case Joining
  show ?thesis
  proof (cases "get_tasks_total s = 0")
    case True
    with Joining show ?thesis by (simp add: next_event_def main_step_def steps_left_def)
  next
    case False
    then have "0 < get_tasks_total s" by simp
    from steps_left_finish_some [OF this, of cl tc header] Joining False show ?thesis
      by (simp add: next_event_def)
  qed
next
  case (Returned r)
  with run show ?thesis by simp
next
  case DivisionByZero
  with run show ?thesis by simp
qed

lemma eventually_returns:
  assumes cap: "0 < inflight_count tc"
    and dims: "\<not> (format header = array \<and> ncols header = 0)"
  shows "inv_control tc header s \<Longrightarrow>
         \<exists>es r. control (fold (exec cl tc header) es s) = Returned r"
proof (induction "steps_left s" arbitrary: s rule: less_induct)
  case less
  show ?case
  proof (cases "\<exists>r. control s = Returned r")
    case True
    then obtain r where "control (fold (exec cl tc header) [] s) = Returned r" by auto
    then show ?thesis by blast
  next
    case False
    from less.prems dims have ok: "control s \<noteq> DivisionByZero"
      by (auto simp: inv_control_def)
    let ?s' = "exec cl tc header (next_event tc s) s"
    from False have "\<forall>r. control s \<noteq> Returned r" by simp
    from next_event_decreases [OF cap less.prems this ok]
    have "steps_left ?s' < steps_left s" .
    from less.hyps [OF this inv_control_exec [OF less.prems]]
    obtain es r where "control (fold (exec cl tc header) es ?s') = Returned r" by blast
    then have "control (fold (exec cl tc header) (next_event tc s # es) s) = Returned r"
      by simp
    then show ?thesis by blast
  qed
qed

subsection \<open>An array header without columns\<close>

lemma line_count_done_empty:
  "line_count_futures (line_count_done cl k s) = [] \<longleftrightarrow> line_count_futures s = []"
  using line_count_done_fields(1) [of cl k s] length_0_conv by metis

lemma inv_no_columns_main:
  assumes hdr: "format header = array" "ncols header = 0"
    and cap: "0 < inflight_count tc"
    and inv: "inv_no_columns s"
  shows "inv_no_columns (main_step tc header s)"
proof (cases "control s")
  case (Seeding seed_i)
  show ?thesis
  proof (cases "seed_i < inflight_count tc \<and> instream s \<noteq> []")
    case True
    with submit_line_count_length [of s]
    have "line_count_futures (submit_line_count s) \<noteq> []" by auto
    with Seeding True show ?thesis by (simp add: main_step_def inv_no_columns_def)
  next
    case False
    with inv Seeding cap have "line_count_futures s \<noteq> []"
      by (auto simp: inv_no_columns_def)
    with Seeding False show ?thesis by (auto simp: main_step_def inv_no_columns_def)
  qed
next
  case Dispatching
  with inv obtain front rest where Cons: "line_count_futures s = front # rest"
    by (cases "line_count_futures s") (auto simp: inv_no_columns_def)
  show ?thesis
  proof (cases "get_tasks_total s < inflight_count tc \<and> is_ready front")
    case False
    with Dispatching Cons inv show ?thesis by (auto simp: main_step_def)
  next
    case True
    then obtain r where r: "front = Ready r" by (cases front) auto
    let ?s' = "if instream s \<noteq> [] then submit_line_count s else s"
    from Cons r submit_line_count_front [of s front rest]
    have "\<exists>rest'. line_count_futures ?s' = Ready r # rest'"
      by (cases "instream s = []") auto
    with Dispatching Cons True show ?thesis
      by (auto simp: main_step_def inv_no_columns_def)
  qed
next
  case Replaced
  with inv obtain r rest where "line_count_futures (s\<lparr>control := Dispatching\<rparr>) = Ready r # rest"
    by (auto simp: inv_no_columns_def)
  from dispatch_Ready(4) [OF this, of header] hdr Replaced show ?thesis
    by (simp add: main_step_def inv_no_columns_def)
next
  case Joining
  with inv show ?thesis by (simp add: inv_no_columns_def)
next
  case (Returned r)
  with inv show ?thesis by (simp add: inv_no_columns_def)
next
  case DivisionByZero
  then show ?thesis by (simp add: main_step_def inv_no_columns_def)
qed

lemma inv_no_columns_exec:
  assumes hdr: "format header = array" "ncols header = 0"
    and cap: "0 < inflight_count tc"
    and inv: "inv_no_columns s"
  shows "inv_no_columns (exec cl tc header e s)"
proof (cases e)
  case Main
  with inv_no_columns_main [OF hdr cap inv] show ?thesis by simp
next
  case (LineCountDone k)
  show ?thesis
  proof (cases "control s = Replaced")
    case True
    with inv obtain r rest where "line_count_futures s = Ready r # rest"
      by (auto simp: inv_no_columns_def)
    from line_count_done_front [OF this, of cl k]
    have "\<exists>r rest. line_count_futures (line_count_done cl k s) = Ready r # rest" by blast
    with LineCountDone True show ?thesis
      by (simp add: inv_no_columns_def line_count_done_fields)
  next
    case False
    with inv LineCountDone show ?thesis
      by (auto simp: inv_no_columns_def line_count_done_fields line_count_done_empty
            split: control.splits)
  qed
next
  case ParseDone
  with inv show ?thesis
    by (auto simp: parse_done_def inv_no_columns_def split: control.splits)
qed

lemma inv_no_columns_run:
  assumes hdr: "format header = array" "ncols header = 0"
    and cap: "0 < inflight_count tc"
    and chunks: "chunks \<noteq> []"
  shows "inv_no_columns (read_body_threads cl tc header chunks es)"
proof (induction es rule: rev_induct)
  case Nil
  from chunks show ?case
    by (simp add: read_body_threads_def read_body_threads_init_def inv_no_columns_def)
next
  case (snoc e es)
  from inv_no_columns_exec [OF hdr cap snoc] show ?case
    by (simp add: read_body_threads_snoc)
qed

text \<open>No run over such a header returns.\<close>

lemma array_without_columns_never_returns:
  assumes "format header = array" "ncols header = 0"
    and "0 < inflight_count tc" and "chunks \<noteq> []"
  shows "control (read_body_threads cl tc header chunks es) \<noteq> Returned r"
  using inv_no_columns_run [OF assms, of cl es] by (auto simp: inv_no_columns_def)

subsection \<open>Line starts\<close>

lemma assign_line_starts_length [simp]: "length (assign_line_starts cl n cs) = length cs"
  by (induction cs arbitrary: n) simp_all

lemma assign_line_starts_nth:
  "i < length cs \<Longrightarrow>
   assign_line_starts cl n cs ! i = (cs ! i, n + sum_list (map cl (take i cs)))"
proof (induction cs arbitrary: n i)
  case Nil
  then show ?case by simp
next
  case (Cons c cs)
  then show ?case by (cases i) (simp_all add: add.assoc)
qed

lemma assign_line_starts_fst: "map fst (assign_line_starts cl n cs) = cs"
  by (induction cs arbitrary: n) simp_all

lemma run_task_keys:
  assumes "i < length (parse_tasks (read_body_threads cl tc header chunks es))"
  shows "i < length chunks \<and>
     task_key (parse_tasks (read_body_threads cl tc header chunks es) ! i) =
       (chunks ! i, header_line_count header + sum_list (map cl (take i chunks)))"
proof -
  define s where "s = read_body_threads cl tc header chunks es"
  have pre: "take (length (parse_tasks s)) (assign_line_starts cl (header_line_count header) chunks) =
      map task_key (parse_tasks s)"
    using inv_order_run [of cl header chunks tc es] by (simp add: inv_order_def s_def)
  from arg_cong [OF pre, of length] have len: "length (parse_tasks s) \<le> length chunks"
    by simp
  from assms have il: "i < length (parse_tasks s)" by (simp add: s_def)
  with len have i: "i < length chunks" by simp
  from il have "task_key (parse_tasks s ! i) = map task_key (parse_tasks s) ! i"
    by simp
  also have "\<dots> = take (length (parse_tasks s))
      (assign_line_starts cl (header_line_count header) chunks) ! i"
    by (simp only: pre)
  also have "\<dots> = assign_line_starts cl (header_line_count header) chunks ! i"
    using il by simp
  also have "\<dots> = (chunks ! i, header_line_count header + sum_list (map cl (take i chunks)))"
    using i by (rule assign_line_starts_nth)
  finally show ?thesis using i by (simp add: s_def)
qed

lemma run_returned:
  assumes cap: "0 < inflight_count tc"
    and ret: "control (read_body_threads cl tc header chunks es) = Returned r"
  shows "length (parse_tasks (read_body_threads cl tc header chunks es)) = length chunks \<and>
         r = header_line_count header + sum_list (map cl chunks)"
proof -
  define s where "s = read_body_threads cl tc header chunks es"
  from inv_control_run [of tc header cl chunks es] ret cap
  have fin: "line_count_futures s = []" "instream s = []" "r = line_num s"
    by (simp_all add: inv_control_def s_def)
  from inv_order_run [of cl header chunks tc es] ret fin
  have eq: "map task_key (parse_tasks s) = assign_line_starts cl (header_line_count header) chunks"
    and ln: "header_line_count header + sum_list (map (\<lambda>t. cl (task_chunk t)) (parse_tasks s)) =
             line_num s"
    by (simp_all add: inv_order_def s_def unread_chunks_def)
  from arg_cong [OF eq, of length] have len: "length (parse_tasks s) = length chunks" by simp
  from arg_cong [OF eq, of "map fst"] have "map task_chunk (parse_tasks s) = chunks"
    by (simp add: assign_line_starts_fst task_key_def comp_def)
  then have "map cl (map task_chunk (parse_tasks s)) = map cl chunks" by simp
  then have "sum_list (map (\<lambda>t. cl (task_chunk t)) (parse_tasks s)) = sum_list (map cl chunks)"
    by (simp add: comp_def)
  with ln fin(3) len show ?thesis by (simp add: s_def)
qed

subsection \<open>Lines and records of a chunk\<close>

lemma length_chunk_lines:
  "int (length (chunk_lines cur s)) =
     int (length (filter (\<lambda>c. c = CHR 0x0A) s)) +
     (if s = [] then (if cur = [] then 0 else 1) else if last s = CHR 0x0A then 0 else 1)"
  by (induction s arbitrary: cur) auto

lemma count_lines_chunk_lines: "count_lines s = int (length (chunk_lines [] s))"
  by (simp add: count_lines_def length_chunk_lines)

lemma count_records_le: "count_records s \<le> count_lines s"
  by (simp add: count_records_def count_lines_chunk_lines)

lemma count_records_no_blank:
  "\<forall>l \<in> set (chunk_lines [] s). \<not> is_blank l \<Longrightarrow> count_records s = count_lines s"
  by (simp add: count_records_def count_lines_chunk_lines)

lemma count_lines_append:
  "a = [] \<or> last a = CHR 0x0A \<Longrightarrow> count_lines (a @ b) = count_lines a + count_lines b"
  by (cases "b = []") (auto simp: count_lines_def)

text \<open>The chunker ends every chunk but the last at a newline: the line counts add up.\<close>

lemma count_lines_concat:
  "\<forall>c \<in> set (butlast cs). c = [] \<or> last c = CHR 0x0A \<Longrightarrow>
   sum_list (map count_lines cs) = count_lines (concat cs)"
proof (induction cs)
  case Nil
  show ?case by (simp add: count_lines_def)
next
  case (Cons c cs)
  show ?case
  proof (cases "cs = []")
    case True
    then show ?thesis by (simp add: count_lines_def)
  next
    case False
    with Cons.prems have "c = [] \<or> last c = CHR 0x0A"
      and "\<forall>c \<in> set (butlast cs). c = [] \<or> last c = CHR 0x0A"
      by simp_all
    with Cons.IH show ?thesis by (simp add: count_lines_append)
  qed
qed

lemma sum_count_records_no_blank:
  "\<forall>c \<in> set cs. \<forall>l \<in> set (chunk_lines [] c). \<not> is_blank l \<Longrightarrow>
   sum_list (map count_records cs) = sum_list (map count_lines cs)"
  by (induction cs) (simp_all add: count_records_no_blank)

subsection \<open>Backpressure\<close>

lemma inflight_count_le: "inflight_count tc \<le> 10 * tc"
  by (simp add: inflight_count_def)

lemma reads_only_when_allowed:
  assumes "instream (exec cl tc header e s) \<noteq> instream s"
  shows "e = Main \<and> length (instream (exec cl tc header e s)) + 1 = length (instream s) \<and>
     ((\<exists>seed_i. control s = Seeding seed_i \<and> seed_i < inflight_count tc) \<or>
      (control s = Dispatching \<and> get_tasks_total s < inflight_count tc \<and>
       (\<exists>front rest. line_count_futures s = front # rest \<and> is_ready front)))"
proof (cases e)
  case (LineCountDone k)
  with assms show ?thesis
    by (auto simp: line_count_done_def split: future.splits if_splits)
next
  case ParseDone
  with assms show ?thesis by (auto simp: parse_done_def split: if_splits)
next
  case Main
  show ?thesis
  proof (cases "control s")
    case (Seeding seed_i)
    with assms Main submit_line_count_length [of s] show ?thesis
      by (auto simp: main_step_def split: if_splits)
  next
    case Dispatching
    show ?thesis
    proof (cases "line_count_futures s")
      case Nil
      with assms Main Dispatching show ?thesis by (simp add: main_step_def)
    next
      case (Cons front rest)
      show ?thesis
      proof (cases "get_tasks_total s < inflight_count tc \<and> is_ready front")
        case False
        with assms Main Dispatching Cons show ?thesis by (auto simp: main_step_def)
      next
        case True
        let ?s' = "if instream s \<noteq> [] then submit_line_count s else s"
        have step: "exec cl tc header e s = ?s'\<lparr>control := Replaced\<rparr>"
          using Main Dispatching Cons True by (simp add: main_step_def)
        from assms have ne: "instream s \<noteq> []"
          unfolding step by (cases "instream s = []") simp_all
        with submit_line_count_length [of s]
        have "length (instream (exec cl tc header e s)) + 1 = length (instream s)"
          unfolding step by (cases "instream s") simp_all
        with Main Dispatching Cons True show ?thesis by simp
      qed
    qed
  next
    case Replaced
    with assms Main show ?thesis by (simp add: main_step_def dispatch_instream)
  next
    case Joining
    with assms Main show ?thesis by (auto simp: main_step_def split: if_splits)
  next
    case (Returned r)
    with assms Main show ?thesis by (simp add: main_step_def)
  next
    case DivisionByZero
    with assms Main show ?thesis by (simp add: main_step_def)
  qed
qed

lemma run_seeding:
  assumes "control (read_body_threads cl tc header chunks es) = Seeding seed_i"
  shows "seed_i \<le> inflight_count tc \<and>
         length (instream (read_body_threads cl tc header chunks es)) + seed_i = length chunks"
proof -
  define s where "s = read_body_threads cl tc header chunks es"
  from inv_control_run [of tc header cl chunks es] assms
  have c: "length (line_count_futures s) \<le> inflight_count tc"
    "length (line_count_futures s) = seed_i" "parse_tasks s = []"
    by (simp_all add: inv_control_def s_def)
  from inv_order_run [of cl header chunks tc es] assms c(3)
  have "assign_line_starts cl (line_num s) (unread_chunks s) =
        assign_line_starts cl (header_line_count header) chunks"
    by (simp add: inv_order_def s_def)
  from arg_cong [OF this, of length] have "length (unread_chunks s) = length chunks" by simp
  with c show ?thesis by (simp add: unread_chunks_def s_def)
qed

text \<open>The definitions that evaluate a run on concrete chunks and events.\<close>

lemmas engine_eval =
  read_body_threads_def read_body_threads_init_def main_step_def dispatch_def
  submit_line_count_def submit_parse_def line_count_done_def parse_done_def
  get_tasks_total_def inflight_count_def count_chunk_lines_def count_lines_def Let_def

subsection \<open>The claims about the read engine\<close>

text \<open>
  What every run gives an array parse task: the chunk handler's offset, and the starting
  position computed from it with \<^verbatim>\<open>header.ncols\<close> (lines 355-356).
\<close>

lemma read_body_threads_array_tasks:
  "read_chunk_array c ls off row col \<in>
     set (parse_tasks (read_body_threads cl tc header chunks es)) \<Longrightarrow>
   off = ls - header_line_count header \<and>
   row = off smod ncols header \<and> col = off sdiv ncols header"
  using inv_offsets_run [of header cl tc chunks es]
  by (auto simp: inv_offsets_def)

text \<open>
  C1 (what the code does at the failing input). The claim: a chunk whose first body
  record has ordinal \<open>ord\<close> is handed the starting position
  \<open>(ord mod nrows, ord div nrows)\<close>. On the 2 by 3 array file of scenario S4, read in
  three chunks of two lines, the chunks start at the ordinals 0, 2 and 4: the parse tasks
  get the positions \<open>(0, 0)\<close>, \<open>(2, 0)\<close> and \<open>(1, 1)\<close>, computed with \<^verbatim>\<open>ncols\<close>, where the
  claim gives \<open>(0, 0)\<close>, \<open>(0, 1)\<close> and \<open>(0, 2)\<close>.
\<close>

theorem read_body_threads_array_start_position:
  "parse_tasks
     (read_body_threads count_lines 1
        \<lparr>object = matrix, format = array, nrows = 2, ncols = 3, header_line_count = 2\<rparr>
        [''1\<newline>2\<newline>'', ''3\<newline>4\<newline>'', ''5\<newline>6\<newline>'']
        [Main, Main, Main, Main, LineCountDone 0, Main, Main, LineCountDone 0, Main, Main,
         LineCountDone 0, Main, Main]) =
     [read_chunk_array ''1\<newline>2\<newline>'' 2 0 0 0,
      read_chunk_array ''3\<newline>4\<newline>'' 4 2 2 0,
      read_chunk_array ''5\<newline>6\<newline>'' 6 4 1 1] \<and>
   (2 mod nrows \<lparr>object = matrix, format = array, nrows = 2, ncols = 3, header_line_count = 2\<rparr>,
    2 div nrows \<lparr>object = matrix, format = array, nrows = 2, ncols = 3, header_line_count = 2\<rparr>) =
     (0, 1) \<and>
   (4 mod nrows \<lparr>object = matrix, format = array, nrows = 2, ncols = 3, header_line_count = 2\<rparr>,
    4 div nrows \<lparr>object = matrix, format = array, nrows = 2, ncols = 3, header_line_count = 2\<rparr>) =
     (0, 2)"
  by (simp add: engine_eval signed_divide_int_def signed_modulo_int_def)

text \<open>
  In every run, the offset passed to \<^verbatim>\<open>handler.get_chunk_handler\<close> for the \<open>i\<close>-th chunk
  is \<^verbatim>\<open>chunk_line_start - header.header_line_count\<close>, the number of lines that
  \<^verbatim>\<open>count_lines\<close> counts in the chunks before it, blank lines included; it is the number of
  records before the chunk only when those chunks hold no blank line.
\<close>

lemma read_body_threads_handler_offsets:
  "\<forall>i < length (parse_tasks (read_body_threads count_lines tc header chunks es)).
     task_handler_offset (parse_tasks (read_body_threads count_lines tc header chunks es) ! i) =
       task_line_start (parse_tasks (read_body_threads count_lines tc header chunks es) ! i) -
       header_line_count header \<and>
     task_handler_offset (parse_tasks (read_body_threads count_lines tc header chunks es) ! i) =
       sum_list (map count_lines (take i chunks)) \<and>
     ((\<forall>c \<in> set (take i chunks). \<forall>l \<in> set (chunk_lines [] c). \<not> is_blank l) \<longrightarrow>
        task_handler_offset (parse_tasks (read_body_threads count_lines tc header chunks es) ! i) =
          sum_list (map count_records (take i chunks)))"
proof (intro allI impI)
  fix i
  define s where "s = read_body_threads count_lines tc header chunks es"
  assume "i < length (parse_tasks (read_body_threads count_lines tc header chunks es))"
  then have i: "i < length (parse_tasks s)" by (simp add: s_def)
  from run_task_keys [of i count_lines tc header chunks es] i
  have ls: "task_line_start (parse_tasks s ! i) =
      header_line_count header + sum_list (map count_lines (take i chunks))"
    by (simp add: s_def task_key_def)
  from inv_offsets_run [of header count_lines tc chunks es] i
  have off: "task_handler_offset (parse_tasks s ! i) =
      task_line_start (parse_tasks s ! i) - header_line_count header"
    by (simp add: inv_offsets_def s_def)
  from ls off have lines: "task_handler_offset (parse_tasks s ! i) =
      sum_list (map count_lines (take i chunks))"
    by simp
  have "task_handler_offset (parse_tasks s ! i) = sum_list (map count_records (take i chunks))"
    if "\<forall>c \<in> set (take i chunks). \<forall>l \<in> set (chunk_lines [] c). \<not> is_blank l"
    using lines sum_count_records_no_blank [OF that] by simp
  with off lines
  show "task_handler_offset (parse_tasks s ! i) =
       task_line_start (parse_tasks s ! i) - header_line_count header \<and>
     task_handler_offset (parse_tasks s ! i) = sum_list (map count_lines (take i chunks)) \<and>
     ((\<forall>c \<in> set (take i chunks). \<forall>l \<in> set (chunk_lines [] c). \<not> is_blank l) \<longrightarrow>
        task_handler_offset (parse_tasks s ! i) = sum_list (map count_records (take i chunks)))"
    by blast
qed

text \<open>
  C3 (what the code does at the failing input). The claim: blank body lines do not
  advance the record ordinal, so the offset passed to \<^verbatim>\<open>get_chunk_handler\<close> is the number
  of records before the chunk. The body \<^verbatim>\<open>1 1 5\<close>, a blank line, \<^verbatim>\<open>2 2 6\<close> holds two records.
  Read in two chunks, the first ending after the blank line, the second chunk's handler
  is created at offset 2, although one record precedes it: lines 351-352 pass on the line
  counter. Read in one chunk, the same bytes give the one handler the offset 0, so the
  second record lands at index 1: where a record is stored depends on where the chunks
  are cut.
\<close>

theorem read_body_threads_offset_counts_blank_lines:
  "map task_handler_offset
     (parse_tasks
        (read_body_threads count_lines 1
           \<lparr>object = matrix, format = coordinate, nrows = 2, ncols = 2, header_line_count = 2\<rparr>
           [''1 1 5\<newline>\<newline>'', ''2 2 6\<newline>'']
           [Main, Main, Main, LineCountDone 0, Main, Main, LineCountDone 0, Main, Main])) = [0, 2] \<and>
   count_records ''1 1 5\<newline>\<newline>'' = 1 \<and>
   map task_handler_offset
     (parse_tasks
        (read_body_threads count_lines 1
           \<lparr>object = matrix, format = coordinate, nrows = 2, ncols = 2, header_line_count = 2\<rparr>
           [''1 1 5\<newline>\<newline>2 2 6\<newline>'']
           [Main, Main, LineCountDone 0, Main, Main])) = [0] \<and>
   concat [''1 1 5\<newline>\<newline>'', ''2 2 6\<newline>''] = ''1 1 5\<newline>\<newline>2 2 6\<newline>'' \<and>
   count_records ''1 1 5\<newline>\<newline>2 2 6\<newline>'' = 2"
  by (simp add: engine_eval count_records_def is_blank_def)

text \<open>
  In every run (every thread count, every order in which the tasks finish), the \<open>i\<close>-th
  parse task submitted holds the \<open>i\<close>-th chunk of the stream and the \<^verbatim>\<open>chunk_line_start\<close>
  \<open>header_line_count\<close> plus the line counts of the chunks before it. With a positive
  \<^verbatim>\<open>inflight_count\<close> (the pool has at least one thread): when the function returns, every
  chunk has been dispatched and the value is \<open>header_line_count\<close> plus the line counts of
  all chunks; and every run can be continued to a return, unless the header is an array
  with \<open>ncols = 0\<close>. By \<open>count_lines_concat\<close> the sum of the chunks' line counts is the line
  count of the body.
\<close>

lemma read_body_threads_line_starts:
  "(\<forall>i < length (parse_tasks (read_body_threads cl tc header chunks es)).
       i < length chunks \<and>
       task_chunk (parse_tasks (read_body_threads cl tc header chunks es) ! i) = chunks ! i \<and>
       task_line_start (parse_tasks (read_body_threads cl tc header chunks es) ! i) =
         header_line_count header + sum_list (map cl (take i chunks))) \<and>
   (0 < inflight_count tc \<longrightarrow>
      (\<forall>r. control (read_body_threads cl tc header chunks es) = Returned r \<longrightarrow>
         length (parse_tasks (read_body_threads cl tc header chunks es)) = length chunks \<and>
         r = header_line_count header + sum_list (map cl chunks)) \<and>
      (\<not> (format header = array \<and> ncols header = 0) \<longrightarrow>
         (\<exists>es' r. control (read_body_threads cl tc header chunks (es @ es')) = Returned r)))"
proof (intro conjI allI impI)
  fix i assume i: "i < length (parse_tasks (read_body_threads cl tc header chunks es))"
  from run_task_keys [OF i] show "i < length chunks"
    and "task_chunk (parse_tasks (read_body_threads cl tc header chunks es) ! i) = chunks ! i"
    and "task_line_start (parse_tasks (read_body_threads cl tc header chunks es) ! i) =
         header_line_count header + sum_list (map cl (take i chunks))"
    by (simp_all add: task_key_def)
next
  fix r assume cap: "0 < inflight_count tc"
    and r: "control (read_body_threads cl tc header chunks es) = Returned r"
  from run_returned [OF cap r]
  show "length (parse_tasks (read_body_threads cl tc header chunks es)) = length chunks"
    and "r = header_line_count header + sum_list (map cl chunks)"
    by simp_all
next
  assume cap: "0 < inflight_count tc"
    and dims: "\<not> (format header = array \<and> ncols header = 0)"
  from eventually_returns [where cl = cl and s = "read_body_threads cl tc header chunks es",
      OF cap dims inv_control_run]
  show "\<exists>es' r. control (read_body_threads cl tc header chunks (es @ es')) = Returned r"
    by (simp add: read_body_threads_append)
qed

text \<open>A run that returns: two chunks, whose line counts finish out of order.\<close>

lemma read_body_threads_returns_example:
  "control (read_body_threads count_lines 1
        \<lparr>object = matrix, format = coordinate, nrows = 2, ncols = 2, header_line_count = 2\<rparr>
        [''1 1 5\<newline>'', ''2 2 6\<newline>'']
        [Main, Main, Main, LineCountDone 1, LineCountDone 0, Main, Main, ParseDone, Main, Main,
         ParseDone, Main, Main]) = Returned 4 \<and>
   map task_line_start (parse_tasks (read_body_threads count_lines 1
        \<lparr>object = matrix, format = coordinate, nrows = 2, ncols = 2, header_line_count = 2\<rparr>
        [''1 1 5\<newline>'', ''2 2 6\<newline>'']
        [Main, Main, Main, LineCountDone 1, LineCountDone 0, Main, Main, ParseDone, Main, Main,
         ParseDone, Main, Main])) = [2, 3]"
  by (simp add: engine_eval)

text \<open>
  C6 (what the code does at the failing input). The claim: the line starts follow the
  stream order and the function returns the total number of lines read. The file is an
  array header with the dimension line \<^verbatim>\<open>2 0\<close> and no body: two header lines, and the
  stream gives one empty chunk. The main thread reads the chunk, takes its line count and
  reaches line 355, \<^verbatim>\<open>body_line % header.ncols\<close> with \<^verbatim>\<open>ncols = 0\<close>: an integer division by
  zero. No schedule makes the function return; the claim gives the return value 2.
\<close>

theorem read_body_threads_array_without_columns:
  "control
     (read_body_threads count_lines 1
        \<lparr>object = matrix, format = array, nrows = 2, ncols = 0, header_line_count = 2\<rparr>
        ['''']
        [Main, Main, LineCountDone 0, Main, Main]) = DivisionByZero \<and>
   (\<forall>es r. control
      (read_body_threads count_lines 1
         \<lparr>object = matrix, format = array, nrows = 2, ncols = 0, header_line_count = 2\<rparr>
         [''''] es) \<noteq> Returned r)"
proof -
  have "control
     (read_body_threads count_lines 1
        \<lparr>object = matrix, format = array, nrows = 2, ncols = 0, header_line_count = 2\<rparr>
        ['''']
        [Main, Main, LineCountDone 0, Main, Main]) = DivisionByZero"
    by (simp add: engine_eval)
  moreover have "0 < inflight_count 1" by (simp add: inflight_count_def)
  then have "control
      (read_body_threads count_lines 1
         \<lparr>object = matrix, format = array, nrows = 2, ncols = 0, header_line_count = 2\<rparr>
         [''''] es) \<noteq> Returned r" for es r
    by (intro array_without_columns_never_returns) simp_all
  ultimately show ?thesis by blast
qed

text \<open>
  C9 (counterexample). The claim: the chunks in flight (read and not yet parsed: the
  pending line-count futures and the unfinished parse tasks) never exceed 10 times the
  thread count. With one thread and eleven chunks, after the seeding loop and one
  finished line count, the \<^verbatim>\<open>while\<close> loop submits the eleventh chunk (line 340): the queue
  holds eleven futures. After the rest of the pass, ten futures are queued and one parse
  task is unfinished: eleven chunks are in flight, and \<^verbatim>\<open>inflight_count\<close> is 10. The pool
  itself holds eleven tasks then, so the bound fails however its tasks are counted in.
\<close>

theorem read_body_threads_inflight_counterexample:
  "length (line_count_futures
     (read_body_threads count_lines 1
        \<lparr>object = matrix, format = coordinate, nrows = 9, ncols = 9, header_line_count = 2\<rparr>
        [''1 1 1\<newline>'', ''2 2 1\<newline>'', ''3 3 1\<newline>'', ''4 4 1\<newline>'', ''5 5 1\<newline>'', ''6 6 1\<newline>'',
         ''7 7 1\<newline>'', ''8 8 1\<newline>'', ''9 9 1\<newline>'', ''1 2 1\<newline>'', ''1 3 1\<newline>'']
        [Main, Main, Main, Main, Main, Main, Main, Main, Main, Main, Main,
         LineCountDone 0, Main])) = 11 \<and>
   length (line_count_futures
     (read_body_threads count_lines 1
        \<lparr>object = matrix, format = coordinate, nrows = 9, ncols = 9, header_line_count = 2\<rparr>
        [''1 1 1\<newline>'', ''2 2 1\<newline>'', ''3 3 1\<newline>'', ''4 4 1\<newline>'', ''5 5 1\<newline>'', ''6 6 1\<newline>'',
         ''7 7 1\<newline>'', ''8 8 1\<newline>'', ''9 9 1\<newline>'', ''1 2 1\<newline>'', ''1 3 1\<newline>'']
        [Main, Main, Main, Main, Main, Main, Main, Main, Main, Main, Main,
         LineCountDone 0, Main, Main])) +
   parse_unfinished
     (read_body_threads count_lines 1
        \<lparr>object = matrix, format = coordinate, nrows = 9, ncols = 9, header_line_count = 2\<rparr>
        [''1 1 1\<newline>'', ''2 2 1\<newline>'', ''3 3 1\<newline>'', ''4 4 1\<newline>'', ''5 5 1\<newline>'', ''6 6 1\<newline>'',
         ''7 7 1\<newline>'', ''8 8 1\<newline>'', ''9 9 1\<newline>'', ''1 2 1\<newline>'', ''1 3 1\<newline>'']
        [Main, Main, Main, Main, Main, Main, Main, Main, Main, Main, Main,
         LineCountDone 0, Main, Main]) = 11 \<and>
   get_tasks_total
     (read_body_threads count_lines 1
        \<lparr>object = matrix, format = coordinate, nrows = 9, ncols = 9, header_line_count = 2\<rparr>
        [''1 1 1\<newline>'', ''2 2 1\<newline>'', ''3 3 1\<newline>'', ''4 4 1\<newline>'', ''5 5 1\<newline>'', ''6 6 1\<newline>'',
         ''7 7 1\<newline>'', ''8 8 1\<newline>'', ''9 9 1\<newline>'', ''1 2 1\<newline>'', ''1 3 1\<newline>'']
        [Main, Main, Main, Main, Main, Main, Main, Main, Main, Main, Main,
         LineCountDone 0, Main, Main]) = 11 \<and>
   inflight_count 1 = 10"
  by (simp add: engine_eval)

text \<open>
  C9 (amended). At every point of every run, the window between the push of line 340 and
  the pop of line 345 included: the queue of line-count futures holds at most
  \<^verbatim>\<open>inflight_count\<close> + 1 entries (\<^verbatim>\<open>inflight_count\<close> is at most 10 times the pool's thread
  count), and at most \<^verbatim>\<open>inflight_count\<close> outside of that window; at most \<^verbatim>\<open>inflight_count\<close>
  parse tasks are unfinished; at most twice \<^verbatim>\<open>inflight_count\<close> chunks are in flight; the
  seeding loop has read \<^verbatim>\<open>seed_i\<close> chunks, at most \<^verbatim>\<open>inflight_count\<close>; and a step reads a
  chunk only in the seeding loop below that bound, or in the \<^verbatim>\<open>while\<close> loop when the pool's
  task count is below \<^verbatim>\<open>inflight_count\<close> and the front future is ready.
\<close>

theorem read_body_threads_backpressure:
  "length (line_count_futures (read_body_threads cl tc header chunks es)) \<le>
     inflight_count tc + 1 \<and>
   (control (read_body_threads cl tc header chunks es) \<noteq> Replaced \<longrightarrow>
      length (line_count_futures (read_body_threads cl tc header chunks es)) \<le>
        inflight_count tc) \<and>
   parse_unfinished (read_body_threads cl tc header chunks es) \<le> inflight_count tc \<and>
   length (line_count_futures (read_body_threads cl tc header chunks es)) +
     parse_unfinished (read_body_threads cl tc header chunks es) \<le> 2 * inflight_count tc \<and>
   inflight_count tc \<le> 10 * tc \<and>
   (\<forall>seed_i. control (read_body_threads cl tc header chunks es) = Seeding seed_i \<longrightarrow>
      seed_i \<le> inflight_count tc \<and>
      length (instream (read_body_threads cl tc header chunks es)) + seed_i = length chunks) \<and>
   (\<forall>e. instream (exec cl tc header e (read_body_threads cl tc header chunks es)) \<noteq>
          instream (read_body_threads cl tc header chunks es) \<longrightarrow>
      e = Main \<and>
      length (instream (exec cl tc header e (read_body_threads cl tc header chunks es))) + 1 =
        length (instream (read_body_threads cl tc header chunks es)) \<and>
      ((\<exists>seed_i. control (read_body_threads cl tc header chunks es) = Seeding seed_i \<and>
                 seed_i < inflight_count tc) \<or>
       (control (read_body_threads cl tc header chunks es) = Dispatching \<and>
        get_tasks_total (read_body_threads cl tc header chunks es) < inflight_count tc \<and>
        (\<exists>front rest. line_count_futures (read_body_threads cl tc header chunks es) = front # rest \<and>
                      is_ready front))))"
proof -
  define s where "s = read_body_threads cl tc header chunks es"
  from inv_control_run [of tc header cl chunks es]
  have b: "length (line_count_futures s) \<le> inflight_count tc + 1"
    "control s \<noteq> Replaced \<longrightarrow> length (line_count_futures s) \<le> inflight_count tc"
    "parse_unfinished s \<le> inflight_count tc"
    "length (line_count_futures s) + parse_unfinished s \<le> 2 * inflight_count tc"
    by (simp_all add: inv_control_def s_def)
  have seed: "\<forall>seed_i. control s = Seeding seed_i \<longrightarrow>
      seed_i \<le> inflight_count tc \<and> length (instream s) + seed_i = length chunks"
    using run_seeding [of cl tc header chunks es] by (simp add: s_def)
  have gate: "\<forall>e. instream (exec cl tc header e s) \<noteq> instream s \<longrightarrow>
      e = Main \<and> length (instream (exec cl tc header e s)) + 1 = length (instream s) \<and>
      ((\<exists>seed_i. control s = Seeding seed_i \<and> seed_i < inflight_count tc) \<or>
       (control s = Dispatching \<and> get_tasks_total s < inflight_count tc \<and>
        (\<exists>front rest. line_count_futures s = front # rest \<and> is_ready front)))"
    using reads_only_when_allowed [of cl tc header _ s] by blast
  from b inflight_count_le [of tc] seed gate show ?thesis
    unfolding s_def by blast
qed

theorem read_body_threads_backpressure_witness:
  "control (read_body_threads count_lines 1
        \<lparr>object = matrix, format = coordinate, nrows = 2, ncols = 2, header_line_count = 2\<rparr>
        [''1 1 5\<newline>'', ''2 2 6\<newline>'']
        [Main, Main, Main, LineCountDone 0, Main, Main, LineCountDone 0, Main, Main]) = Dispatching \<and>
   length (line_count_futures (read_body_threads count_lines 1
        \<lparr>object = matrix, format = coordinate, nrows = 2, ncols = 2, header_line_count = 2\<rparr>
        [''1 1 5\<newline>'', ''2 2 6\<newline>'']
        [Main, Main, Main, LineCountDone 0, Main, Main, LineCountDone 0, Main, Main])) \<le> inflight_count 1 \<and>
   length (line_count_futures (read_body_threads count_lines 1
        \<lparr>object = matrix, format = coordinate, nrows = 2, ncols = 2, header_line_count = 2\<rparr>
        [''1 1 5\<newline>'', ''2 2 6\<newline>'']
        [Main, Main, Main, LineCountDone 0, Main, Main, LineCountDone 0, Main, Main])) +
     parse_unfinished (read_body_threads count_lines 1
        \<lparr>object = matrix, format = coordinate, nrows = 2, ncols = 2, header_line_count = 2\<rparr>
        [''1 1 5\<newline>'', ''2 2 6\<newline>'']
        [Main, Main, Main, LineCountDone 0, Main, Main, LineCountDone 0, Main, Main]) \<le> 2 * inflight_count 1 \<and>
   inflight_count 1 \<le> 10 * 1 \<and>
   control (read_body_threads count_lines 1
        \<lparr>object = matrix, format = coordinate, nrows = 2, ncols = 2, header_line_count = 2\<rparr>
        [''1 1 5\<newline>'', ''2 2 6\<newline>'']
        [Main]) = Seeding 1 \<and>
   length (instream (read_body_threads count_lines 1
        \<lparr>object = matrix, format = coordinate, nrows = 2, ncols = 2, header_line_count = 2\<rparr>
        [''1 1 5\<newline>'', ''2 2 6\<newline>'']
        [Main])) + 1 = length [''1 1 5\<newline>'', ''2 2 6\<newline>''] \<and>
   length (instream (exec count_lines 1 \<lparr>object = matrix, format = coordinate, nrows = 2, ncols = 2, header_line_count = 2\<rparr> Main (read_body_threads count_lines 1
        \<lparr>object = matrix, format = coordinate, nrows = 2, ncols = 2, header_line_count = 2\<rparr>
        [''1 1 5\<newline>'', ''2 2 6\<newline>'']
        []))) + 1 =
     length (instream (read_body_threads count_lines 1
        \<lparr>object = matrix, format = coordinate, nrows = 2, ncols = 2, header_line_count = 2\<rparr>
        [''1 1 5\<newline>'', ''2 2 6\<newline>'']
        [])) \<and>
   ((\<exists>seed_i. control (read_body_threads count_lines 1
        \<lparr>object = matrix, format = coordinate, nrows = 2, ncols = 2, header_line_count = 2\<rparr>
        [''1 1 5\<newline>'', ''2 2 6\<newline>'']
        []) = Seeding seed_i \<and> seed_i < inflight_count 1) \<or>
    (control (read_body_threads count_lines 1
        \<lparr>object = matrix, format = coordinate, nrows = 2, ncols = 2, header_line_count = 2\<rparr>
        [''1 1 5\<newline>'', ''2 2 6\<newline>'']
        []) = Dispatching \<and>
     get_tasks_total (read_body_threads count_lines 1
        \<lparr>object = matrix, format = coordinate, nrows = 2, ncols = 2, header_line_count = 2\<rparr>
        [''1 1 5\<newline>'', ''2 2 6\<newline>'']
        []) < inflight_count 1 \<and>
     (\<exists>front rest. line_count_futures (read_body_threads count_lines 1
        \<lparr>object = matrix, format = coordinate, nrows = 2, ncols = 2, header_line_count = 2\<rparr>
        [''1 1 5\<newline>'', ''2 2 6\<newline>'']
        []) = front # rest \<and> is_ready front)))"
proof -
  note t = read_body_threads_backpressure [of count_lines 1
      "\<lparr>object = matrix, format = coordinate, nrows = 2, ncols = 2, header_line_count = 2\<rparr>"
      "[''1 1 5\<newline>'', ''2 2 6\<newline>'']"]
  have rd: "instream (exec count_lines 1 \<lparr>object = matrix, format = coordinate, nrows = 2, ncols = 2, header_line_count = 2\<rparr> Main (read_body_threads count_lines 1
        \<lparr>object = matrix, format = coordinate, nrows = 2, ncols = 2, header_line_count = 2\<rparr>
        [''1 1 5\<newline>'', ''2 2 6\<newline>'']
        [])) \<noteq>
      instream (read_body_threads count_lines 1
        \<lparr>object = matrix, format = coordinate, nrows = 2, ncols = 2, header_line_count = 2\<rparr>
        [''1 1 5\<newline>'', ''2 2 6\<newline>'']
        [])"
    by (simp add: engine_eval)
  have ctl: "control (read_body_threads count_lines 1
        \<lparr>object = matrix, format = coordinate, nrows = 2, ncols = 2, header_line_count = 2\<rparr>
        [''1 1 5\<newline>'', ''2 2 6\<newline>'']
        [Main, Main, Main, LineCountDone 0, Main, Main, LineCountDone 0, Main, Main]) = Dispatching"
    by (simp add: engine_eval)
  then have nr: "control (read_body_threads count_lines 1
        \<lparr>object = matrix, format = coordinate, nrows = 2, ncols = 2, header_line_count = 2\<rparr>
        [''1 1 5\<newline>'', ''2 2 6\<newline>'']
        [Main, Main, Main, LineCountDone 0, Main, Main, LineCountDone 0, Main, Main]) \<noteq> Replaced"
    by simp
  have sd: "control (read_body_threads count_lines 1
        \<lparr>object = matrix, format = coordinate, nrows = 2, ncols = 2, header_line_count = 2\<rparr>
        [''1 1 5\<newline>'', ''2 2 6\<newline>'']
        [Main]) = Seeding 1"
    by (simp add: engine_eval)
  note g = t [of "[]", THEN conjunct2, THEN conjunct2, THEN conjunct2, THEN conjunct2,
      THEN conjunct2, THEN conjunct2, THEN spec, THEN mp, OF rd]
  note b = t [of "[Main, Main, Main, LineCountDone 0, Main, Main, LineCountDone 0, Main, Main]"]
  note q = b [THEN conjunct2, THEN conjunct1, THEN mp, OF nr]
  note k = t [of "[Main]", THEN conjunct2, THEN conjunct2, THEN conjunct2, THEN conjunct2,
      THEN conjunct2, THEN conjunct1, THEN spec, THEN mp, OF sd, THEN conjunct2]
  from ctl q sd k
       b [THEN conjunct2, THEN conjunct2, THEN conjunct2, THEN conjunct1]
       b [THEN conjunct2, THEN conjunct2, THEN conjunct2, THEN conjunct2, THEN conjunct1]
       g [THEN conjunct2]
  show ?thesis by blast
qed


end
